theory Spec2Isabelle
  imports Main
begin

section \<open>The reactive runtime (shared/reactivity.js)\<close>

subsection \<open>Values, user code and the module state\<close>

text \<open>
  JavaScript values that signals hold. Numbers are integers here, so \<open>Object.is\<close> is
  equality of \<^typ>\<open>int\<close> (no NaN, no signed zero); on the other values \<open>Object.is\<close> is
  equality as well. Function values are not values of a signal: \<open>write\<close> treats a function
  argument as an updater.
\<close>

datatype val = VUndef | VNull | VBool bool | VNum int | VStr string

type_synonym sid = nat
type_synonym eid = nat
type_synonym vid = nat

text \<open>
  User code (an effect's \<open>fn\<close>, a cleanup, the function given to \<open>batch\<close> or \<open>untrack\<close>) is a
  tree of calls into the module: \<open>Read s k\<close> is \<open>const v = s(); k(v)\<close>, \<open>Write s v k\<close> is
  \<open>setS(v); k\<close>, \<open>Update s f k\<close> is \<open>setS(f)\<close> with a pure updater \<open>f\<close>, \<open>Batch b k\<close> is
  \<open>batch(() => b); k\<close>, \<open>Untrack b k\<close> is \<open>untrack(() => b); k\<close>. \<open>Load\<close> and \<open>Store\<close> read
  and assign a variable captured by a closure (\<open>initialized\<close> and \<open>cached\<close> of \<open>knotMemo\<close>).
  \<open>Ret v\<close> returns a value that is not a function, \<open>RetFn c\<close> returns the function \<open>c\<close>
  (an effect registers it as a cleanup), \<open>Throw v\<close> throws.
\<close>

datatype prog =
    Ret val
  | RetFn prog
  | Throw val
  | Read sid "val \<Rightarrow> prog"
  | Write sid val prog
  | Update sid "val \<Rightarrow> val" prog
  | Batch prog prog
  | Untrack prog prog
  | Load vid "val \<Rightarrow> prog"
  | Store vid val prog

datatype outcome = Returned val | ReturnedFn prog | Thrown val

text \<open>What \<open>batch\<close> is given: user code, or the closure \<open>effect\<close> of \<open>onClimax\<close>.\<close>

datatype task = TProg prog | TEffect eid

text \<open>\<open>createMoan\<close>: the closure variables \<open>value\<close> and \<open>subscribers\<close> (a Set, in insertion order).\<close>

record signal =
  sig_value :: val
  subscribers :: "eid list"

text \<open>\<open>onClimax\<close>: the closure variables \<open>fn\<close>, \<open>disposed\<close> and \<open>cleanup\<close>.\<close>

record effect_rec =
  fn :: prog
  disposed :: bool
  cleanup :: "prog list"

text \<open>
  Observations, kept for the statements only: \<open>Ran e\<close> when the closure \<open>effect\<close> of effect
  \<open>e\<close> is called and passes its \<open>disposed\<close> guard, \<open>Scheduled e\<close> when the deferring scheduler is called on \<open>e\<close>, \<open>Logged v\<close> for
  \<open>console.error("Effect error:", v)\<close>.
\<close>

datatype event = Ran eid | Scheduled eid | Logged val

text \<open>
  The module-level variables. \<open>schedule\<close> is either \<open>null\<close> (\<open>False\<close>) or the closure
  \<open>(e) => pending.add(e)\<close> (\<open>True\<close>): every such closure reads the module variable
  \<open>pending\<close> when it is called, so they all behave alike.
\<close>

record rt =
  currentEffect :: "eid option"
  effectStack :: "eid list"
  batchDepth :: nat
  pending :: "eid list option"
  schedule :: bool
  signals :: "sid \<Rightarrow> signal"
  effects :: "eid \<Rightarrow> effect_rec"
  vars :: "vid \<Rightarrow> val"
  trace :: "event list"
  nextSid :: nat
  nextEid :: nat
  nextVid :: nat

text \<open>\<open>Set.prototype.add\<close> on a Set kept as the list of its elements in insertion order.\<close>

definition set_add :: "'a list \<Rightarrow> 'a \<Rightarrow> 'a list" where
  "set_add xs x = (if x \<in> set xs then xs else xs @ [x])"

definition typeError :: val where
  "typeError = VStr ''TypeError''"

definition upd_signal :: "sid \<Rightarrow> (signal \<Rightarrow> signal) \<Rightarrow> rt \<Rightarrow> rt" where
  "upd_signal s f st = st\<lparr>signals := (signals st)(s := f (signals st s))\<rparr>"

definition upd_effect :: "eid \<Rightarrow> (effect_rec \<Rightarrow> effect_rec) \<Rightarrow> rt \<Rightarrow> rt" where
  "upd_effect e f st = st\<lparr>effects := (effects st)(e := f (effects st e))\<rparr>"

definition emit :: "event \<Rightarrow> rt \<Rightarrow> rt" where
  "emit ev st = st\<lparr>trace := trace st @ [ev]\<rparr>"

text \<open>The getter \<open>read\<close> of \<open>createMoan\<close>.\<close>

definition read :: "sid \<Rightarrow> rt \<Rightarrow> val \<times> rt" where
  "read s st =
     (sig_value (signals st s),
      (case currentEffect st of
         None \<Rightarrow> st
       | Some e \<Rightarrow> upd_signal s (\<lambda>g. g\<lparr>subscribers := set_add (subscribers g) e\<rparr>) st))"

text \<open>The \<open>finally\<close> block of \<open>effect\<close>: pop, then the new top of the stack or \<open>null\<close>.\<close>

definition effect_exit :: "rt \<Rightarrow> rt" where
  "effect_exit st =
     (let stk = butlast (effectStack st)
      in st\<lparr>effectStack := stk,
            currentEffect := (if stk = [] then None else Some (last stk))\<rparr>)"

subsection \<open>The interpreter\<close>

text \<open>
  Effects call writes and writes call effects, and nothing bounds the depth, so every
  function takes fuel and \<open>None\<close> means that the fuel ran out.

  \<^item> \<open>exec\<close> runs user code;
  \<^item> \<open>write_sig\<close> is the setter \<open>write\<close> of \<open>createMoan\<close> once the candidate value is computed, and
    \<open>notify\<close> its loop over the snapshot \<open>[...subscribers]\<close>;
  \<^item> \<open>effect\<close> is the closure \<open>effect\<close> of \<open>onClimax\<close>, \<open>forEach\<close> is
    \<open>cleanup.forEach((c) => c())\<close> (indices below the length at the call, read from the
    array as it is when the index is reached);
  \<^item> \<open>batch\<close> is \<open>batch\<close>, \<open>drain\<close> its loop \<open>for (const e of effects) e()\<close>.
\<close>

function (sequential) exec :: "nat \<Rightarrow> prog \<Rightarrow> rt \<Rightarrow> (outcome \<times> rt) option"
  and write_sig :: "nat \<Rightarrow> sid \<Rightarrow> val \<Rightarrow> rt \<Rightarrow> (outcome \<times> rt) option"
  and notify :: "nat \<Rightarrow> sid \<Rightarrow> eid list \<Rightarrow> rt \<Rightarrow> (outcome \<times> rt) option"
  and effect :: "nat \<Rightarrow> eid \<Rightarrow> rt \<Rightarrow> rt option"
  and forEach :: "nat \<Rightarrow> eid \<Rightarrow> nat \<Rightarrow> nat \<Rightarrow> rt \<Rightarrow> (outcome \<times> rt) option"
  and batch :: "nat \<Rightarrow> task \<Rightarrow> rt \<Rightarrow> (outcome \<times> rt) option"
  and drain :: "nat \<Rightarrow> eid list \<Rightarrow> rt \<Rightarrow> rt option"
where
  "exec 0 p st = None"
| "exec (Suc n) (Ret v) st = Some (Returned v, st)"
| "exec (Suc n) (RetFn c) st = Some (ReturnedFn c, st)"
| "exec (Suc n) (Throw v) st = Some (Thrown v, st)"
| "exec (Suc n) (Read s k) st = exec n (k (fst (read s st))) (snd (read s st))"
| "exec (Suc n) (Write s v k) st =
     (case write_sig n s v st of
        None \<Rightarrow> None
      | Some (Thrown err, st') \<Rightarrow> Some (Thrown err, st')
      | Some (_, st') \<Rightarrow> exec n k st')"
| "exec (Suc n) (Update s f k) st =
     (case write_sig n s (f (sig_value (signals st s))) st of
        None \<Rightarrow> None
      | Some (Thrown err, st') \<Rightarrow> Some (Thrown err, st')
      | Some (_, st') \<Rightarrow> exec n k st')"
| "exec (Suc n) (Batch b k) st =
     (case batch n (TProg b) st of
        None \<Rightarrow> None
      | Some (Thrown err, st') \<Rightarrow> Some (Thrown err, st')
      | Some (_, st') \<Rightarrow> exec n k st')"
| "exec (Suc n) (Untrack b k) st =
     (case exec n b (st\<lparr>currentEffect := None\<rparr>) of
        None \<Rightarrow> None
      | Some (r, st') \<Rightarrow>
          (case r of
             Thrown err \<Rightarrow> Some (Thrown err, st'\<lparr>currentEffect := currentEffect st\<rparr>)
           | _ \<Rightarrow> exec n k (st'\<lparr>currentEffect := currentEffect st\<rparr>)))"
| "exec (Suc n) (Load x k) st = exec n (k (vars st x)) st"
| "exec (Suc n) (Store x v k) st = exec n k (st\<lparr>vars := (vars st)(x := v)\<rparr>)"

| "write_sig 0 s v st = None"
| "write_sig (Suc n) s v st =
     (if sig_value (signals st s) = v then Some (Returned VUndef, st)
      else notify n s (subscribers (signals st s))
             (upd_signal s (\<lambda>g. g\<lparr>sig_value := v\<rparr>) st))"

| "notify 0 s es st = None"
| "notify (Suc n) s [] st = Some (Returned VUndef, st)"
| "notify (Suc n) s (e # es) st =
     (if e \<in> set (subscribers (signals st s)) then
        (if schedule st then
           (case pending st of
              None \<Rightarrow> Some (Thrown typeError, st)
            | Some ps \<Rightarrow> notify n s es (emit (Scheduled e) (st\<lparr>pending := Some (set_add ps e)\<rparr>)))
         else
           (case effect n e st of
              None \<Rightarrow> None
            | Some st' \<Rightarrow> notify n s es st'))
      else notify n s es st)"

| "effect 0 e st = None"
| "effect (Suc n) e st =
     (if disposed (effects st e) then Some st
      else
        (case forEach n e 0 (length (cleanup (effects st e)))
                (emit (Ran e)
                   (st\<lparr>effectStack := effectStack st @ [e], currentEffect := Some e\<rparr>)) of
           None \<Rightarrow> None
         | Some (Thrown err, st1) \<Rightarrow> Some (effect_exit (emit (Logged err) st1))
         | Some (_, st1) \<Rightarrow>
             (case exec n (fn (effects st1 e))
                     (upd_effect e (\<lambda>r. r\<lparr>cleanup := []\<rparr>) st1) of
                None \<Rightarrow> None
              | Some (Thrown err, st2) \<Rightarrow> Some (effect_exit (emit (Logged err) st2))
              | Some (ReturnedFn c, st2) \<Rightarrow>
                  Some (effect_exit (upd_effect e (\<lambda>r. r\<lparr>cleanup := cleanup r @ [c]\<rparr>) st2))
              | Some (Returned v, st2) \<Rightarrow> Some (effect_exit st2))))"

| "forEach 0 e i len st = None"
| "forEach (Suc n) e i len st =
     (if i < len then
        (if i < length (cleanup (effects st e)) then
           (case exec n (cleanup (effects st e) ! i) st of
              None \<Rightarrow> None
            | Some (Thrown err, st') \<Rightarrow> Some (Thrown err, st')
            | Some (_, st') \<Rightarrow> forEach n e (Suc i) len st')
         else forEach n e (Suc i) len st)
      else Some (Returned VUndef, st))"

| "batch 0 t st = None"
| "batch (Suc n) t st =
     (let st1 = st\<lparr>batchDepth := Suc (batchDepth st),
                    pending := (if batchDepth st = 0 then Some [] else pending st),
                    schedule := True\<rparr>
      in case (case t of
                 TProg b \<Rightarrow> exec n b st1
               | TEffect e \<Rightarrow> map_option (Pair (Returned VUndef)) (effect n e st1)) of
           None \<Rightarrow> None
         | Some (r, st2) \<Rightarrow>
             (let st3 = st2\<lparr>schedule := schedule st, batchDepth := batchDepth st2 - 1\<rparr>
              in if batchDepth st3 = 0 then
                   (case pending st3 of
                      None \<Rightarrow> Some (Thrown typeError, st3\<lparr>pending := None\<rparr>)
                    | Some ps \<Rightarrow>
                        (case drain n ps (st3\<lparr>pending := None\<rparr>) of
                           None \<Rightarrow> None
                         | Some st4 \<Rightarrow> Some (r, st4)))
                 else Some (r, st3)))"

| "drain 0 es st = None"
| "drain (Suc n) [] st = Some st"
| "drain (Suc n) (e # es) st =
     (case effect n e st of
        None \<Rightarrow> None
      | Some st' \<Rightarrow> drain n es st')"
  by pat_completeness auto

termination
  by (relation "measure (case_sum (case_sum fst (case_sum fst fst))
                           (case_sum (case_sum fst fst) (case_sum fst fst)))") auto

subsection \<open>The exported functions\<close>

text \<open>\<open>createMoan(initial)\<close>: a fresh signal; the result is its identity and the new state.\<close>

definition createMoan :: "val \<Rightarrow> rt \<Rightarrow> sid \<times> rt" where
  "createMoan initial st =
     (nextSid st,
      st\<lparr>signals := (signals st)(nextSid st := \<lparr>sig_value = initial, subscribers = []\<rparr>),
         nextSid := Suc (nextSid st)\<rparr>)"

text \<open>
  The setter as user code calls it: a literal, or an updater applied to the previous value.
\<close>

datatype next_arg = Literal val | Updater "val \<Rightarrow> val"

definition candidate :: "next_arg \<Rightarrow> val \<Rightarrow> val" where
  "candidate nxt v = (case nxt of Literal w \<Rightarrow> w | Updater f \<Rightarrow> f v)"

definition setter :: "nat \<Rightarrow> sid \<Rightarrow> next_arg \<Rightarrow> rt \<Rightarrow> (outcome \<times> rt) option" where
  "setter n s nxt st = write_sig n s (candidate nxt (sig_value (signals st s))) st"

text \<open>
  \<open>onClimax(fn)\<close>: a fresh effect, run once through \<open>batch(effect)\<close>. The effect's identity
  (\<open>nextEid\<close> before the call) stands for the disposer that \<open>onClimax\<close> returns.
\<close>

definition onClimax :: "nat \<Rightarrow> prog \<Rightarrow> rt \<Rightarrow> (outcome \<times> rt) option" where
  "onClimax n f st =
     batch n (TEffect (nextEid st))
       (st\<lparr>effects := (effects st)(nextEid st := \<lparr>fn = f, disposed = False, cleanup = []\<rparr>),
           nextEid := Suc (nextEid st)\<rparr>)"


text \<open>
  Sequencing of user code: \<open>bind p f\<close> is \<open>const r = p(); f(r)\<close>. A \<open>p\<close> that returns a
  function is outside what \<open>knotMemo\<close> is typed for (\<open>() => T\<close> with \<open>T\<close> a value; the setter
  would take the function for an updater); \<open>bind\<close> passes \<open>undefined\<close> on then.
\<close>

primrec bind :: "prog \<Rightarrow> (val \<Rightarrow> prog) \<Rightarrow> prog" where
  "bind (Ret v) f = f v"
| "bind (RetFn c) f = f VUndef"
| "bind (Throw v) f = Throw v"
| "bind (Read s k) f = Read s (\<lambda>v. bind (k v) f)"
| "bind (Write s v k) f = Write s v (bind k f)"
| "bind (Update s g k) f = Update s g (bind k f)"
| "bind (Batch b k) f = Batch b (bind k f)"
| "bind (Untrack b k) f = Untrack b (bind k f)"
| "bind (Load x k) f = Load x (\<lambda>v. bind (k v) f)"
| "bind (Store x v k) f = Store x v (bind k f)"

text \<open>
  The function that \<open>knotMemo\<close> hands to \<open>onClimax\<close>; \<open>ini\<close> and \<open>cac\<close> are the closure
  variables \<open>initialized\<close> and \<open>cached\<close>, \<open>out\<close> is the memo's own signal.
\<close>

definition memo_body :: "prog \<Rightarrow> vid \<Rightarrow> vid \<Rightarrow> sid \<Rightarrow> prog" where
  "memo_body f ini cac out =
     bind f (\<lambda>result.
       Load ini (\<lambda>i. Load cac (\<lambda>c.
         if i \<noteq> VBool True \<or> result \<noteq> c then
           Store cac result
             (Untrack (Batch (Write out result (Ret VUndef)) (Ret VUndef))
                (Store ini (VBool True) (Ret VUndef)))
         else Ret VUndef)))"

text \<open>
  \<open>knotMemo(fn)\<close>: \<open>initialized = false\<close>, \<open>cached\<close> undefined, \<open>createMoan()\<close>, then the
  effect. The result is the memo's signal (its getter is what \<open>knotMemo\<close> returns).
\<close>

definition knotMemo :: "nat \<Rightarrow> prog \<Rightarrow> rt \<Rightarrow> (sid \<times> outcome \<times> rt) option" where
  "knotMemo n f st =
     (let ini = nextVid st; cac = Suc (nextVid st);
          st1 = st\<lparr>vars := (vars st)(ini := VBool False, cac := VUndef),
                    nextVid := Suc (Suc (nextVid st))\<rparr>
      in case createMoan VUndef st1 of
           (out, st2) \<Rightarrow> map_option (Pair out) (onClimax n (memo_body f ini cac out) st2))"

text \<open>The state of the module when it has just been loaded.\<close>

definition init_signal :: signal where
  "init_signal = \<lparr>sig_value = VUndef, subscribers = []\<rparr>"

definition init_effect :: effect_rec where
  "init_effect = \<lparr>fn = Ret VUndef, disposed = False, cleanup = []\<rparr>"

definition rt0 :: rt where
  "rt0 = \<lparr>currentEffect = None, effectStack = [], batchDepth = 0, pending = None,
          schedule = False, signals = (\<lambda>_. init_signal), effects = (\<lambda>_. init_effect),
          vars = (\<lambda>_. VUndef), trace = [], nextSid = 0, nextEid = 0, nextVid = 0\<rparr>"

text \<open>
  Statements at the top level of a script, one after the other: the next one runs when the
  previous one returned, and an exception ends the script.
\<close>

definition and_then ::
  "(outcome \<times> rt) option \<Rightarrow> (rt \<Rightarrow> (outcome \<times> rt) option) \<Rightarrow> (outcome \<times> rt) option" where
  "and_then m f =
     (case m of
        None \<Rightarrow> None
      | Some (Thrown err, st) \<Rightarrow> Some (Thrown err, st)
      | Some (_, st) \<Rightarrow> f st)"

definition start :: "rt \<Rightarrow> (outcome \<times> rt) option" where
  "start st = Some (Returned VUndef, st)"

text \<open>What a statement about a finished script looks at.\<close>

definition final :: "(rt \<Rightarrow> 'a) \<Rightarrow> (outcome \<times> rt) option \<Rightarrow> 'a option" where
  "final f m = map_option (\<lambda>x. f (snd x)) m"

definition runs_of :: "event list \<Rightarrow> eid list" where
  "runs_of tr = concat (map (\<lambda>ev. case ev of Ran e \<Rightarrow> [e] | _ \<Rightarrow> []) tr)"

definition scheduled_of :: "event list \<Rightarrow> eid list" where
  "scheduled_of tr = concat (map (\<lambda>ev. case ev of Scheduled e \<Rightarrow> [e] | _ \<Rightarrow> []) tr)"

definition script :: "(rt \<Rightarrow> (outcome \<times> rt) option) list \<Rightarrow> rt \<Rightarrow> (outcome \<times> rt) option" where
  "script steps st = foldl and_then (start st) steps"

text \<open>The exported functions as statements of a script.\<close>

definition createMoan_stmt :: "val \<Rightarrow> rt \<Rightarrow> (outcome \<times> rt) option" where
  "createMoan_stmt initial st = Some (Returned VUndef, snd (createMoan initial st))"

definition knotMemo_stmt :: "nat \<Rightarrow> prog \<Rightarrow> rt \<Rightarrow> (outcome \<times> rt) option" where
  "knotMemo_stmt n f st = map_option snd (knotMemo n f st)"

text \<open>
  Subscriber sets compared signal by signal: every subscriber on the left is one on the
  right.
\<close>

definition subs_le :: "(sid \<Rightarrow> signal) \<Rightarrow> (sid \<Rightarrow> signal) \<Rightarrow> bool" where
  "subs_le g g' = (\<forall>s. set (subscribers (g s)) \<subseteq> set (subscribers (g' s)))"

text \<open>
  \<open>v % 2\<close>: the remainder of the division that truncates, which has the sign of \<open>v\<close>;
  \<open>null\<close>, \<open>false\<close> and \<open>true\<close> count as \<open>0\<close>, \<open>0\<close> and \<open>1\<close>. On \<open>undefined\<close> JavaScript
  gives NaN and on a string the remainder of the number that the string parses to, or NaN;
  \<^typ>\<open>val\<close> lacks NaN, and \<open>mod2\<close> is applied to numbers only.
\<close>

definition mod2 :: "val \<Rightarrow> val" where
  "mod2 v =
     (case v of
        VNum i \<Rightarrow> VNum (sgn i * (abs i mod 2))
      | VBool b \<Rightarrow> VNum (if b then 1 else 0)
      | VNull \<Rightarrow> VNum 0
      | _ \<Rightarrow> VUndef)"

subsection \<open>Vocabulary of the statements about batches\<close>

text \<open>Each element once, in the order of first occurrence.\<close>

fun firsts :: "'a list \<Rightarrow> 'a list" where
  "firsts [] = []"
| "firsts (x # xs) = x # filter (\<lambda>y. y \<noteq> x) (firsts xs)"

text \<open>
  User code that never calls a setter. It may read signals, open batches, use \<open>untrack\<close>,
  assign closure variables, throw, and return a cleanup of the same kind.
\<close>

primrec quiet :: "prog \<Rightarrow> bool" where
  "quiet (Ret v) = True"
| "quiet (RetFn c) = quiet c"
| "quiet (Throw v) = True"
| "quiet (Read s k) = (\<forall>v. quiet (k v))"
| "quiet (Write s v k) = False"
| "quiet (Update s f k) = False"
| "quiet (Batch b k) = (quiet b \<and> quiet k)"
| "quiet (Untrack b k) = (quiet b \<and> quiet k)"
| "quiet (Load x k) = (\<forall>v. quiet (k v))"
| "quiet (Store x v k) = quiet k"

definition quiet_effect :: "effect_rec \<Rightarrow> bool" where
  "quiet_effect r = (quiet (fn r) \<and> list_all quiet (cleanup r))"

text \<open>
  Inside an open batch: the deferring scheduler is installed and there is a pending set.
\<close>

definition deferred :: "rt \<Rightarrow> bool" where
  "deferred st = (schedule st \<and> 0 < batchDepth st \<and> pending st \<noteq> None)"

text \<open>
  \<open>defers st st' ss\<close>: from \<open>st\<close> to \<open>st'\<close> the scheduler was called on \<open>ss\<close>, in this order,
  and nothing else happened to the batch: no effect ran, each call added its effect to the
  pending set, and every signal whose value differs had all its subscribers scheduled. The
  current effect and the effect stack are as they were, and when there is no current effect
  nobody was subscribed.
\<close>

definition defers :: "rt \<Rightarrow> rt \<Rightarrow> eid list \<Rightarrow> bool" where
  "defers st st' ss =
     (schedule st' \<and> batchDepth st' = batchDepth st
      \<and> pending st' = Some (foldl set_add (the (pending st)) ss)
      \<and> trace st' = trace st @ map Scheduled ss
      \<and> effects st' = effects st
      \<and> subs_le (signals st) (signals st')
      \<and> (\<forall>s. sig_value (signals st' s) \<noteq> sig_value (signals st s)
             \<longrightarrow> set (subscribers (signals st s)) \<subseteq> set ss)
      \<and> currentEffect st' = currentEffect st \<and> effectStack st' = effectStack st
      \<and> (currentEffect st = None
           \<longrightarrow> (\<forall>s. subscribers (signals st' s) = subscribers (signals st s))))"

text \<open>No pending set is left over when no batch is open.\<close>

definition idle :: "rt \<Rightarrow> bool" where
  "idle st = (batchDepth st = 0 \<longrightarrow> pending st = None)"

text \<open>
  \<open>calm st st'\<close>: nothing was scheduled, run or logged, no signal changed its value and the
  batch is as it was (subscriptions and closure variables may differ).
\<close>

definition calm :: "rt \<Rightarrow> rt \<Rightarrow> bool" where
  "calm st st' =
     (trace st' = trace st \<and> effects st' = effects st \<and> batchDepth st' = batchDepth st
      \<and> schedule st' = schedule st \<and> pending st' = pending st
      \<and> (\<forall>s. sig_value (signals st' s) = sig_value (signals st s)))"

text \<open>
  \<open>settled st st' tr\<close>: from \<open>st\<close> to \<open>st'\<close> the events \<open>tr\<close> were recorded, none of them a
  scheduling; an effect that called no setter still calls none, no effect is disposed or
  revived, and the batch and the values of the signals are as they were.
\<close>

definition settled :: "rt \<Rightarrow> rt \<Rightarrow> event list \<Rightarrow> bool" where
  "settled st st' tr =
     (trace st' = trace st @ tr \<and> scheduled_of tr = []
      \<and> (\<forall>e. quiet_effect (effects st e) \<longrightarrow> quiet_effect (effects st' e))
      \<and> (\<forall>e. disposed (effects st' e) = disposed (effects st e))
      \<and> batchDepth st' = batchDepth st \<and> schedule st' = schedule st \<and> pending st' = pending st
      \<and> (\<forall>s. sig_value (signals st' s) = sig_value (signals st s)))"

subsection \<open>Vocabulary of the statements about memos\<close>

text \<open>
  User code that never calls the setter of the signal \<open>out\<close>, and returns only cleanups of
  that kind: code written where that setter is not in scope.
\<close>

primrec never_sets :: "sid \<Rightarrow> prog \<Rightarrow> bool" where
  "never_sets out (Ret v) = True"
| "never_sets out (RetFn c) = never_sets out c"
| "never_sets out (Throw v) = True"
| "never_sets out (Read s k) = (\<forall>v. never_sets out (k v))"
| "never_sets out (Write s v k) = (s \<noteq> out \<and> never_sets out k)"
| "never_sets out (Update s f k) = (s \<noteq> out \<and> never_sets out k)"
| "never_sets out (Batch b k) = (never_sets out b \<and> never_sets out k)"
| "never_sets out (Untrack b k) = (never_sets out b \<and> never_sets out k)"
| "never_sets out (Load x k) = (\<forall>v. never_sets out (k v))"
| "never_sets out (Store x v k) = never_sets out k"

text \<open>An effect whose function and cleanups never call the setter of \<open>out\<close>.\<close>

definition outsider :: "sid \<Rightarrow> effect_rec \<Rightarrow> bool" where
  "outsider out r = (never_sets out (fn r) \<and> list_all (never_sets out) (cleanup r))"

text \<open>Every effect but \<open>me\<close> is one that never calls the setter of \<open>out\<close>.\<close>

definition others_outside :: "sid \<Rightarrow> eid \<Rightarrow> rt \<Rightarrow> bool" where
  "others_outside out me st = (\<forall>e. e \<noteq> me \<longrightarrow> outsider out (effects st e))"

text \<open>How many runs of effect \<open>e\<close> are on record.\<close>

definition runs_count :: "eid \<Rightarrow> rt \<Rightarrow> nat" where
  "runs_count e st = count_list (runs_of (trace st)) e"

text \<open>
  \<open>kept out me b st st'\<close>: from \<open>st\<close> to \<open>st'\<close> the effects other than \<open>me\<close> stay away from the
  setter of \<open>out\<close>, no run of \<open>me\<close> is lost from the record and, when \<open>b\<close> holds and no run
  of \<open>me\<close> was added, \<open>out\<close> holds the value it held.
\<close>

definition kept :: "sid \<Rightarrow> eid \<Rightarrow> bool \<Rightarrow> rt \<Rightarrow> rt \<Rightarrow> bool" where
  "kept out me b st st' =
     (others_outside out me st' \<and> runs_count me st \<le> runs_count me st'
      \<and> (b \<and> runs_count me st' = runs_count me st
           \<longrightarrow> sig_value (signals st' out) = sig_value (signals st out)))"

subsection \<open>Vocabulary of the statements about the drain\<close>

text \<open>No batch is open: the scheduler is \<open>null\<close>, the depth is zero and there is no pending set.\<close>

definition unbatched :: "rt \<Rightarrow> bool" where
  "unbatched st = (\<not> schedule st \<and> batchDepth st = 0 \<and> pending st = None)"

text \<open>
  The state in which \<open>batch\<close> calls its function (lines 149 to 151), and the state in
  which the outermost \<open>batch\<close> starts its drain, \<open>st\<close> being the state at the call of
  \<open>batch\<close> and \<open>st2\<close> the state in which the function ended (lines 155 to 158).
\<close>

definition opened :: "rt \<Rightarrow> rt" where
  "opened st = st\<lparr>batchDepth := Suc (batchDepth st),
                  pending := (if batchDepth st = 0 then Some [] else pending st),
                  schedule := True\<rparr>"

definition restored :: "rt \<Rightarrow> rt \<Rightarrow> rt" where
  "restored st st2 = st2\<lparr>schedule := schedule st, batchDepth := batchDepth st2 - 1, pending := None\<rparr>"

text \<open>
  \<open>drained es st st'\<close>: from \<open>st\<close> to \<open>st'\<close> the effects \<open>es\<close> were called, one call each and
  in this order, and every call started with no batch open.
\<close>

inductive drained :: "eid list \<Rightarrow> rt \<Rightarrow> rt \<Rightarrow> bool" where
  drained_none: "drained [] st st"
| drained_call: "unbatched st \<Longrightarrow> effect n e st = Some st1 \<Longrightarrow> drained es st1 st'
                 \<Longrightarrow> drained (e # es) st st'"

text \<open>The current effect, if there is one, is the one on top of the effect stack.\<close>

definition tops :: "rt \<Rightarrow> bool" where
  "tops st =
     (\<forall>e. currentEffect st = Some e \<longrightarrow> effectStack st \<noteq> [] \<and> last (effectStack st) = e)"

text \<open>
  \<open>steady st st'\<close>: from \<open>st\<close> to \<open>st'\<close> no run is lost from the record, no effect is
  disposed or revived, the effect stack is as it was, if no batch was open then none is
  open, and if the current effect was the top of the stack then it is.
\<close>

definition steady :: "rt \<Rightarrow> rt \<Rightarrow> bool" where
  "steady st st' =
     ((\<forall>e. runs_count e st \<le> runs_count e st')
      \<and> (\<forall>e. disposed (effects st' e) = disposed (effects st e))
      \<and> effectStack st' = effectStack st
      \<and> (unbatched st \<longrightarrow> unbatched st')
      \<and> (tops st \<longrightarrow> tops st'))"

subsection \<open>Vocabulary of the statements about effects that write\<close>

text \<open>
  User code whose calls of setters are all to signals of \<open>H\<close>, and user code that calls the
  getter of no signal of \<open>H\<close>; the cleanups that the code returns are of the same kind.
\<close>

primrec writes_only :: "sid set \<Rightarrow> prog \<Rightarrow> bool" where
  "writes_only H (Ret v) = True"
| "writes_only H (RetFn c) = writes_only H c"
| "writes_only H (Throw v) = True"
| "writes_only H (Read s k) = (\<forall>v. writes_only H (k v))"
| "writes_only H (Write s v k) = (s \<in> H \<and> writes_only H k)"
| "writes_only H (Update s f k) = (s \<in> H \<and> writes_only H k)"
| "writes_only H (Batch b k) = (writes_only H b \<and> writes_only H k)"
| "writes_only H (Untrack b k) = (writes_only H b \<and> writes_only H k)"
| "writes_only H (Load x k) = (\<forall>v. writes_only H (k v))"
| "writes_only H (Store x v k) = writes_only H k"

primrec reads_outside :: "sid set \<Rightarrow> prog \<Rightarrow> bool" where
  "reads_outside H (Ret v) = True"
| "reads_outside H (RetFn c) = reads_outside H c"
| "reads_outside H (Throw v) = True"
| "reads_outside H (Read s k) = (s \<notin> H \<and> (\<forall>v. reads_outside H (k v)))"
| "reads_outside H (Write s v k) = reads_outside H k"
| "reads_outside H (Update s f k) = reads_outside H k"
| "reads_outside H (Batch b k) = (reads_outside H b \<and> reads_outside H k)"
| "reads_outside H (Untrack b k) = (reads_outside H b \<and> reads_outside H k)"
| "reads_outside H (Load x k) = (\<forall>v. reads_outside H (k v))"
| "reads_outside H (Store x v k) = reads_outside H k"

text \<open>Whatever an effect of the state writes, function or cleanup, is a signal of \<open>H\<close>.\<close>

definition feeds :: "sid set \<Rightarrow> rt \<Rightarrow> bool" where
  "feeds H st =
     (\<forall>e. writes_only H (fn (effects st e)) \<and> list_all (writes_only H) (cleanup (effects st e)))"

text \<open>
  The effects \<open>E\<close> keep apart from the signals \<open>H\<close>: they read none of them, function or
  cleanup, and subscribe to none of them.
\<close>

definition apart :: "sid set \<Rightarrow> eid set \<Rightarrow> rt \<Rightarrow> bool" where
  "apart H E st =
     (\<forall>e\<in>E. reads_outside H (fn (effects st e))
            \<and> list_all (reads_outside H) (cleanup (effects st e))
            \<and> (\<forall>s\<in>H. e \<notin> set (subscribers (signals st s))))"

text \<open>
  \<open>fenced H E st\<close>: the two above, and no effect of \<open>E\<close> is pending. \<open>owned E st\<close>: the effect
  on top of the stack, whose code is running, is one of \<open>E\<close>. \<open>unmoved H E st st'\<close>: \<open>st'\<close>
  is fenced and records as many runs of each effect of \<open>E\<close> as \<open>st\<close>.
\<close>

definition fenced :: "sid set \<Rightarrow> eid set \<Rightarrow> rt \<Rightarrow> bool" where
  "fenced H E st =
     (feeds H st \<and> apart H E st \<and> (\<forall>ps. pending st = Some ps \<longrightarrow> set ps \<inter> E = {}))"

definition owned :: "eid set \<Rightarrow> rt \<Rightarrow> bool" where
  "owned E st = (effectStack st \<noteq> [] \<and> last (effectStack st) \<in> E)"

definition unmoved :: "sid set \<Rightarrow> eid set \<Rightarrow> rt \<Rightarrow> rt \<Rightarrow> bool" where
  "unmoved H E st st' = (fenced H E st' \<and> (\<forall>e\<in>E. runs_count e st' = runs_count e st))"

section \<open>Async resources (\<open>loadShot\<close> of shared/reactivity.js)\<close>

text \<open>
  The closure of one \<open>loadShot\<close> call: its three signals, the variable \<open>controller\<close>
  (\<open>None\<close> is \<open>null\<close>; a controller is known by the number of the \<open>refetch\<close> call that
  created it) and, for the statements, which controllers have been aborted and how many
  have been created.
\<close>

record resource =
  dataS :: sid
  loadingS :: sid
  errorS :: sid
  controller :: "nat option"
  aborted :: "nat list"
  started :: nat

text \<open>\<open>loadShot(fetcher, deps, initialValue)\<close> up to the first call of \<open>refetch\<close>.\<close>

definition loadShot :: "val \<Rightarrow> rt \<Rightarrow> resource \<times> rt" where
  "loadShot initialValue st =
     (case createMoan initialValue st of (d, st1) \<Rightarrow>
      case createMoan (VBool False) st1 of (l, st2) \<Rightarrow>
      case createMoan VNull st2 of (e, st3) \<Rightarrow>
        (\<lparr>dataS = d, loadingS = l, errorS = e, controller = None, aborted = [], started = 0\<rparr>,
         st3))"

text \<open>\<open>controller.abort()\<close>, and \<open>controller?.abort()\<close> which is \<open>dispose\<close>.\<close>

definition abort :: "nat \<Rightarrow> resource \<Rightarrow> resource" where
  "abort t res = res\<lparr>aborted := set_add (aborted res) t\<rparr>"

definition res_dispose :: "resource \<Rightarrow> resource" where
  "res_dispose res = (case controller res of None \<Rightarrow> res | Some c \<Rightarrow> abort c res)"

text \<open>
  \<open>refetch\<close> up to its \<open>await\<close>: abort the controller in place, create the next one, and
  \<open>batch(() => { setLoading(true); setError(null) })\<close>. The call of \<open>fetcher\<close> is the
  environment's; its promise settles in a later step.
\<close>

definition refetch_start :: "nat \<Rightarrow> resource \<Rightarrow> rt \<Rightarrow> (resource \<times> outcome \<times> rt) option" where
  "refetch_start n res st =
     (let res1 = res_dispose res;
          res2 = res1\<lparr>controller := Some (started res1), started := Suc (started res1)\<rparr>
      in map_option (Pair res2)
           (batch n (TProg (Write (loadingS res) (VBool True)
                             (Write (errorS res) VNull (Ret VUndef)))) st))"

text \<open>The body \<open>if (!signal.aborted) p\<close> of a batch callback of the fetch with controller \<open>t\<close>.\<close>

definition unless_aborted :: "resource \<Rightarrow> nat \<Rightarrow> prog \<Rightarrow> prog" where
  "unless_aborted res t p = (if t \<in> set (aborted res) then Ret VUndef else p)"

datatype settlement = Resolved val | Rejected val

text \<open>
  The rest of \<open>refetch\<close> for the fetch with controller \<open>t\<close>, once the promise of \<open>fetcher\<close> has
  settled: the \<open>try\<close> block after the \<open>await\<close>, the \<open>catch\<close> block when the promise was
  rejected or the \<open>try\<close> block threw, and the \<open>finally\<close> block.
\<close>

definition settle :: "nat \<Rightarrow> resource \<Rightarrow> nat \<Rightarrow> settlement \<Rightarrow> rt \<Rightarrow> (outcome \<times> rt) option" where
  "settle n res t out st =
     (case (case out of
              Resolved v \<Rightarrow>
                batch n (TProg (unless_aborted res t (Write (dataS res) v (Ret VUndef)))) st
            | Rejected err \<Rightarrow> Some (Thrown err, st)) of
        None \<Rightarrow> None
      | Some (r1, st1) \<Rightarrow>
          (case (case r1 of
                   Thrown err \<Rightarrow>
                     batch n (TProg (unless_aborted res t (Write (errorS res) err (Ret VUndef)))) st1
                 | _ \<Rightarrow> Some (r1, st1)) of
             None \<Rightarrow> None
           | Some (r2, st2) \<Rightarrow>
               (case batch n (TProg (unless_aborted res t
                                (Write (loadingS res) (VBool False) (Ret VUndef)))) st2 of
                  None \<Rightarrow> None
                | Some (Thrown err, st3) \<Rightarrow> Some (Thrown err, st3)
                | Some (_, st3) \<Rightarrow> Some (r2, st3))))"

text \<open>
  What happens to a resource, one step at a time: a call of \<open>refetch\<close>, a call of \<open>dispose\<close>,
  the settlement of the fetch with a given controller. An exception of a step goes to the
  promise of \<open>refetch\<close> and not to the next step.
\<close>

datatype res_event = Refetch | Dispose | Settle nat settlement

definition res_step :: "nat \<Rightarrow> res_event \<Rightarrow> resource \<times> rt \<Rightarrow> (resource \<times> rt) option" where
  "res_step n ev x =
     (case ev of
        Refetch \<Rightarrow> map_option (\<lambda>y. (fst y, snd (snd y))) (refetch_start n (fst x) (snd x))
      | Dispose \<Rightarrow> Some (res_dispose (fst x), snd x)
      | Settle t out \<Rightarrow> map_option (\<lambda>y. (fst x, snd y)) (settle n (fst x) t out (snd x)))"

primrec res_run :: "nat \<Rightarrow> res_event list \<Rightarrow> resource \<times> rt \<Rightarrow> (resource \<times> rt) option" where
  "res_run n [] x = Some x"
| "res_run n (ev # es) x = (case res_step n ev x of None \<Rightarrow> None | Some y \<Rightarrow> res_run n es y)"

text \<open>
  No \<open>refetch\<close> call among the steps, and every settlement is of a fetch that was started.
\<close>

definition no_refetch :: "resource \<Rightarrow> res_event list \<Rightarrow> bool" where
  "no_refetch res es =
     list_all (\<lambda>ev. case ev of Refetch \<Rightarrow> False | Dispose \<Rightarrow> True | Settle t out \<Rightarrow> t < started res) es"

text \<open>What the getters \<open>data()\<close>, \<open>loading()\<close> and \<open>error()\<close> return.\<close>

definition res_view :: "resource \<times> rt \<Rightarrow> val \<times> val \<times> val" where
  "res_view x =
     (sig_value (signals (snd x) (dataS (fst x))),
      sig_value (signals (snd x) (loadingS (fst x))),
      sig_value (signals (snd x) (errorS (fst x))))"

text \<open>
  \<open>untouched st st'\<close>: no signal changed (neither its value nor its subscribers), nothing was
  scheduled, run or logged, and the effects are as they were.
\<close>

definition untouched :: "rt \<Rightarrow> rt \<Rightarrow> bool" where
  "untouched st st' = (signals st' = signals st \<and> trace st' = trace st \<and> effects st' = effects st)"

text \<open>Every fetch that was started and is not the one in place has been aborted.\<close>

definition superseded_aborted :: "resource \<Rightarrow> bool" where
  "superseded_aborted res =
     (\<forall>t. t < started res \<and> controller res \<noteq> Some t \<longrightarrow> t \<in> set (aborted res))"

definition all_aborted :: "resource \<Rightarrow> bool" where
  "all_aborted res = (\<forall>t. t < started res \<longrightarrow> t \<in> set (aborted res))"

section \<open>Hydration (client.js)\<close>

subsection \<open>Strings and property values\<close>

text \<open>
  \<open>String.prototype.toLowerCase\<close> and \<open>toUpperCase\<close> on ASCII letters: a letter of one
  alphabet is sent to the letter at the same place of the other.
\<close>

definition upper_letters :: string where
  "upper_letters = ''ABCDEFGHIJKLMNOPQRSTUVWXYZ''"

definition lower_letters :: string where
  "lower_letters = ''abcdefghijklmnopqrstuvwxyz''"

definition lower_char :: "char \<Rightarrow> char" where
  "lower_char c = (case map_of (zip upper_letters lower_letters) c of Some l \<Rightarrow> l | None \<Rightarrow> c)"

definition upper_char :: "char \<Rightarrow> char" where
  "upper_char c = (case map_of (zip lower_letters upper_letters) c of Some u \<Rightarrow> u | None \<Rightarrow> c)"

definition toLowerCase :: "string \<Rightarrow> string" where
  "toLowerCase s = map lower_char s"

definition toUpperCase :: "string \<Rightarrow> string" where
  "toUpperCase s = map upper_char s"

text \<open>
  \<open>!s.trim()\<close>: the string has white space only (tab, line feed, vertical tab, form feed,
  carriage return and space of the ASCII characters).
\<close>

definition white_space :: string where
  "white_space = [CHR 0x09, CHR 0x0A, CHR 0x0B, CHR 0x0C, CHR 0x0D, CHR 0x20]"

definition blank :: "string \<Rightarrow> bool" where
  "blank s = list_all (\<lambda>c. c \<in> set white_space) s"

text \<open>Decimal digits of a number, for \<open>String(n)\<close>.\<close>

fun digits :: "nat \<Rightarrow> string" where
  "digits n =
     (if n < 10 then [''0123456789'' ! n] else digits (n div 10) @ [''0123456789'' ! (n mod 10)])"

declare digits.simps [simp del]

definition showInt :: "int \<Rightarrow> string" where
  "showInt i = (if i < 0 then CHR ''-'' # digits (nat (- i)) else digits (nat i))"

text \<open>
  The values of \<open>vnode.props\<close>: a function is known by a number, an object (a \<open>style\<close>) by
  its entries.
\<close>

datatype jsv = JUndef | JNull | JBool bool | JNum int | JStr string | JFun nat
  | JObj "(string \<times> string) list"

text \<open>\<open>String(v)\<close> (the source text of a function is not modelled) and the truthiness of \<open>v\<close>.\<close>

definition toStr :: "jsv \<Rightarrow> string" where
  "toStr v =
     (case v of
        JUndef \<Rightarrow> ''undefined'' | JNull \<Rightarrow> ''null''
      | JBool b \<Rightarrow> (if b then ''true'' else ''false'')
      | JNum i \<Rightarrow> showInt i | JStr s \<Rightarrow> s
      | JFun f \<Rightarrow> ''function'' | JObj kvs \<Rightarrow> ''[object Object]'')"

definition truthy :: "jsv \<Rightarrow> bool" where
  "truthy v =
     (case v of
        JUndef \<Rightarrow> False | JNull \<Rightarrow> False | JBool b \<Rightarrow> b
      | JNum i \<Rightarrow> i \<noteq> 0 | JStr s \<Rightarrow> s \<noteq> [] | JFun f \<Rightarrow> True | JObj kvs \<Rightarrow> True)"

fun alist_set :: "'k \<Rightarrow> 'v \<Rightarrow> ('k \<times> 'v) list \<Rightarrow> ('k \<times> 'v) list" where
  "alist_set k v [] = [(k, v)]"
| "alist_set k v (p # ps) = (if fst p = k then (k, v) # ps else p # alist_set k v ps)"

subsection \<open>Virtual nodes\<close>

text \<open>
  \<open>VNothing\<close> is \<open>null\<close>, \<open>undefined\<close> or \<open>false\<close>; \<open>VElement type props children\<close> is an
  object with a string \<open>type\<close>, with the entries of \<open>props\<close> (none when it has no \<open>props\<close>) and
  with an array \<open>children\<close> (an object that has no \<open>children\<close> is read as one with the empty
  array: the code reads \<open>vnode.children || []\<close>); \<open>VObject children propsChildren\<close> is an
  object without \<open>type\<close>, with its \<open>children\<close> and \<open>props.children\<close> when it has them.
\<close>

datatype vnode =
    VNothing
  | VText string
  | VNumber int
  | VArray "vnode list"
  | VElement string "(string \<times> jsv) list" "vnode list"
  | VObject "vnode option" "vnode option"

text \<open>Truthiness of a virtual node held in \<open>vnode.children\<close> or \<open>vnode.props.children\<close>.\<close>

definition vtruthy :: "vnode option \<Rightarrow> bool" where
  "vtruthy c =
     (case c of
        None \<Rightarrow> False
      | Some v \<Rightarrow> (case v of VNothing \<Rightarrow> False | VText s \<Rightarrow> s \<noteq> [] | VNumber i \<Rightarrow> i \<noteq> 0 | _ \<Rightarrow> True))"

text \<open>\<open>vnode.props?.key\<close>\<close>

definition vkey :: "vnode \<Rightarrow> jsv" where
  "vkey v =
     (case v of
        VElement ty props cs \<Rightarrow> (case map_of props ''key'' of None \<Rightarrow> JUndef | Some k \<Rightarrow> k)
      | _ \<Rightarrow> JUndef)"

subsection \<open>The live document\<close>

text \<open>
  Nodes are known by their number, given in the order of their creation; a node has
  its parent and the list of its children, so that moving, replacing and removing a node
  are what they are in the DOM. \<open>attributes\<close> holds what \<open>getAttribute\<close> reads (\<open>className\<close> is the attribute \<open>class\<close>,
  \<open>dataset.key\<close> the attribute \<open>data-key\<close>), \<open>properties\<close> what scripts assigned to \<open>value\<close>
  and to the boolean properties, \<open>handlers\<close> the arrays \<open>element[__cumstack_<event>_handler]\<close>
  of \<open>delegateEvent\<close>. The markup assigned to \<open>innerHTML\<close> is kept as a string; the nodes a
  parser would make of it are not in the model.
\<close>

datatype node_kind = ElementNode | TextNode | CommentNode | FragmentNode

record dnode =
  nodeType :: node_kind
  tagName :: string
  textContent :: string
  attributes :: "(string \<times> string) list"
  style :: "(string \<times> string) list"
  properties :: "(string \<times> jsv) list"
  handlers :: "(string \<times> nat) list"
  innerHTML :: "string option"
  childNodes :: "nat list"
  parentNode :: "nat option"

text \<open>
  The document: the nodes by their number (\<open>created\<close> of them exist so far), the messages
  of \<open>console.warn\<close>, the keys of \<open>delegatedEvents\<close>, and the calls of \<open>ref\<close> callbacks
  (function and element).
\<close>

record doc =
  nodes :: "nat \<Rightarrow> dnode"
  created :: nat
  warnings :: "string list"
  delegatedEvents :: "string list"
  refCalls :: "(nat \<times> nat) list"

text \<open>\<open>hydrationConfig\<close>\<close>

record hconfig =
  isProduction :: bool
  logMismatches :: bool
  partialHydration :: bool

definition blank_node :: dnode where
  "blank_node = \<lparr>nodeType = TextNode, tagName = [], textContent = [], attributes = [], style = [],
                  properties = [], handlers = [], innerHTML = None, childNodes = [],
                  parentNode = None\<rparr>"

text \<open>The update of a node.\<close>

definition upd_node :: "nat \<Rightarrow> (dnode \<Rightarrow> dnode) \<Rightarrow> doc \<Rightarrow> doc" where
  "upd_node x f d = d\<lparr>nodes := (nodes d)(x := f (nodes d x))\<rparr>"

text \<open>\<open>logHydrationWarning\<close>\<close>

definition logHydrationWarning :: "hconfig \<Rightarrow> string \<Rightarrow> doc \<Rightarrow> doc" where
  "logHydrationWarning cfg message d =
     (if \<not> isProduction cfg \<and> logMismatches cfg then d\<lparr>warnings := warnings d @ [message]\<rparr> else d)"

text \<open>The siblings after a node, \<open>nextSibling\<close> and \<open>firstChild\<close>.\<close>

definition following :: "doc \<Rightarrow> nat \<Rightarrow> nat list" where
  "following d x =
     (case parentNode (nodes d x) of
        None \<Rightarrow> []
      | Some p \<Rightarrow> tl (dropWhile (\<lambda>y. y \<noteq> x) (childNodes (nodes d p))))"

definition nextSibling :: "doc \<Rightarrow> nat \<Rightarrow> nat option" where
  "nextSibling d x = (case following d x of [] \<Rightarrow> None | y # ys \<Rightarrow> Some y)"

definition firstChild :: "doc \<Rightarrow> nat \<Rightarrow> nat option" where
  "firstChild d x = (case childNodes (nodes d x) of [] \<Rightarrow> None | y # ys \<Rightarrow> Some y)"

text \<open>
  Creation. An element made in an HTML document reports its tag name in upper case. The
  names given to \<open>createElement\<close> and \<open>setAttribute\<close> are taken to be valid names.
\<close>

definition new_node :: "dnode \<Rightarrow> doc \<Rightarrow> nat \<times> doc" where
  "new_node nd d = (created d, d\<lparr>nodes := (nodes d)(created d := nd), created := Suc (created d)\<rparr>)"

definition createTextNode :: "string \<Rightarrow> doc \<Rightarrow> nat \<times> doc" where
  "createTextNode s d = new_node (blank_node\<lparr>nodeType := TextNode, textContent := s\<rparr>) d"

definition createElement :: "string \<Rightarrow> doc \<Rightarrow> nat \<times> doc" where
  "createElement ty d = new_node (blank_node\<lparr>nodeType := ElementNode, tagName := toUpperCase ty\<rparr>) d"

definition createDocumentFragment :: "doc \<Rightarrow> nat \<times> doc" where
  "createDocumentFragment d = new_node (blank_node\<lparr>nodeType := FragmentNode\<rparr>) d"

text \<open>
  Tree mutation. \<open>detach\<close> takes a node out of its parent. What is inserted for a node is
  the node, or the children of a fragment, which the fragment then loses.
\<close>

definition detach :: "nat \<Rightarrow> doc \<Rightarrow> doc" where
  "detach x d =
     (case parentNode (nodes d x) of
        None \<Rightarrow> d
      | Some p \<Rightarrow>
          upd_node x (\<lambda>nd. nd\<lparr>parentNode := None\<rparr>)
            (upd_node p (\<lambda>nd. nd\<lparr>childNodes := filter (\<lambda>y. y \<noteq> x) (childNodes nd)\<rparr>) d))"

definition inserted :: "doc \<Rightarrow> nat \<Rightarrow> nat list" where
  "inserted d x = (if nodeType (nodes d x) = FragmentNode then childNodes (nodes d x) else [x])"

definition take_out :: "nat \<Rightarrow> doc \<Rightarrow> doc" where
  "take_out x d =
     (if nodeType (nodes d x) = FragmentNode then upd_node x (\<lambda>nd. nd\<lparr>childNodes := []\<rparr>) d
      else detach x d)"

definition adopt :: "nat \<Rightarrow> nat list \<Rightarrow> doc \<Rightarrow> doc" where
  "adopt p xs d = fold (\<lambda>x. upd_node x (\<lambda>nd. nd\<lparr>parentNode := Some p\<rparr>)) xs d"

definition appendChild :: "nat \<Rightarrow> nat \<Rightarrow> doc \<Rightarrow> doc" where
  "appendChild p x d =
     (let xs = inserted d x; d1 = take_out x d
      in adopt p xs (upd_node p (\<lambda>nd. nd\<lparr>childNodes := childNodes nd @ xs\<rparr>) d1))"

text \<open>
  \<open>removeChild\<close>, \<open>insertBefore\<close> and \<open>replaceChild\<close> throw \<open>NotFoundError\<close> when the node they
  are given as the child is not a child of the parent.
\<close>

definition notFound :: string where
  "notFound = ''NotFoundError''"

definition removeChild :: "nat \<Rightarrow> nat \<Rightarrow> doc \<Rightarrow> string + doc" where
  "removeChild p x d =
     (if parentNode (nodes d x) = Some p then Inr (detach x d) else Inl notFound)"

definition insertBefore :: "nat \<Rightarrow> nat \<Rightarrow> nat \<Rightarrow> doc \<Rightarrow> string + doc" where
  "insertBefore p x ref d =
     (if parentNode (nodes d ref) \<noteq> Some p then Inl notFound
      else if x = ref then Inr d
      else
        (let xs = inserted d x; d1 = take_out x d; cs = childNodes (nodes d1 p)
         in Inr (adopt p xs
                  (upd_node p (\<lambda>nd. nd\<lparr>childNodes :=
                      takeWhile (\<lambda>y. y \<noteq> ref) cs @ xs @ dropWhile (\<lambda>y. y \<noteq> ref) cs\<rparr>) d1))))"

definition replaceChild :: "nat \<Rightarrow> nat \<Rightarrow> nat \<Rightarrow> doc \<Rightarrow> string + doc" where
  "replaceChild p x old d =
     (if parentNode (nodes d old) \<noteq> Some p then Inl notFound
      else if x = old then Inr d
      else
        (let xs = inserted d x; d1 = take_out x d; cs = childNodes (nodes d1 p)
         in Inr (adopt p xs
                  (upd_node old (\<lambda>nd. nd\<lparr>parentNode := None\<rparr>)
                    (upd_node p (\<lambda>nd. nd\<lparr>childNodes :=
                        takeWhile (\<lambda>y. y \<noteq> old) cs @ xs @ tl (dropWhile (\<lambda>y. y \<noteq> old) cs)\<rparr>) d1)))))"

text \<open>Attributes of an element in an HTML document: names are lower-cased.\<close>

definition getAttribute :: "doc \<Rightarrow> nat \<Rightarrow> string \<Rightarrow> string option" where
  "getAttribute d x name = map_of (attributes (nodes d x)) (toLowerCase name)"

definition setAttribute :: "nat \<Rightarrow> string \<Rightarrow> string \<Rightarrow> doc \<Rightarrow> doc" where
  "setAttribute x name v d =
     upd_node x (\<lambda>nd. nd\<lparr>attributes := alist_set (toLowerCase name) v (attributes nd)\<rparr>) d"

text \<open>\<open>element.dataset.key\<close>, truthy when the attribute is there and not empty.\<close>

definition dataset_key :: "doc \<Rightarrow> nat \<Rightarrow> string option" where
  "dataset_key d x = getAttribute d x ''data-key''"

definition has_key :: "doc \<Rightarrow> nat \<Rightarrow> bool" where
  "has_key d x = (case dataset_key d x of None \<Rightarrow> False | Some k \<Rightarrow> k \<noteq> [])"

definition className :: "doc \<Rightarrow> nat \<Rightarrow> string" where
  "className d x = (case getAttribute d x ''class'' of None \<Rightarrow> [] | Some c \<Rightarrow> c)"

text \<open>
  \<open>element[key]\<close> for \<open>value\<close> and the boolean properties; one that no script has assigned
  reads as the empty string and as \<open>false\<close>.
\<close>

definition booleanAttrs :: "string list" where
  "booleanAttrs = [''checked'', ''selected'', ''disabled'', ''readonly'', ''multiple'', ''autofocus'']"

definition get_property :: "doc \<Rightarrow> nat \<Rightarrow> string \<Rightarrow> jsv" where
  "get_property d x key =
     (case map_of (properties (nodes d x)) key of
        Some v \<Rightarrow> v
      | None \<Rightarrow> (if key = ''value'' then JStr [] else JBool False))"

definition set_property :: "nat \<Rightarrow> string \<Rightarrow> jsv \<Rightarrow> doc \<Rightarrow> doc" where
  "set_property x key v d =
     upd_node x (\<lambda>nd. nd\<lparr>properties := alist_set key
        (if key = ''value'' then JStr (case v of JNull \<Rightarrow> [] | _ \<Rightarrow> toStr v) else JBool (truthy v))
        (properties nd)\<rparr>) d"

text \<open>\<open>Object.assign(element.style, value)\<close>; \<open>typeof null\<close> is \<open>'object'\<close> too.\<close>

definition assign_style :: "nat \<Rightarrow> jsv \<Rightarrow> doc \<Rightarrow> doc" where
  "assign_style x v d =
     (case v of
        JObj kvs \<Rightarrow> upd_node x (\<lambda>nd. nd\<lparr>style := fold (\<lambda>kv. alist_set (fst kv) (snd kv)) kvs (style nd)\<rparr>) d
      | _ \<Rightarrow> d)"

definition is_object :: "jsv \<Rightarrow> bool" where
  "is_object v = (case v of JObj kvs \<Rightarrow> True | JNull \<Rightarrow> True | _ \<Rightarrow> False)"

text \<open>\<open>delegateEvent(eventName, element, handler)\<close>, with the document as delegation root.\<close>

definition delegateEvent :: "string \<Rightarrow> nat \<Rightarrow> nat \<Rightarrow> doc \<Rightarrow> doc" where
  "delegateEvent eventName x handler d =
     (upd_node x (\<lambda>nd. nd\<lparr>handlers := handlers nd @ [(eventName, handler)]\<rparr>) d)
       \<lparr>delegatedEvents := set_add (delegatedEvents d) eventName\<rparr>"

definition is_handler :: "string \<Rightarrow> jsv \<Rightarrow> bool" where
  "is_handler key v = (take 2 key = ''on'' \<and> (case v of JFun f \<Rightarrow> True | _ \<Rightarrow> False))"

definition fun_id :: "jsv \<Rightarrow> nat" where
  "fun_id v = (case v of JFun f \<Rightarrow> f | _ \<Rightarrow> 0)"

text \<open>One entry of \<open>vnode.props\<close> in \<open>hydrateDOMElement\<close>.\<close>

definition hydrateProp :: "hconfig \<Rightarrow> nat \<Rightarrow> string \<times> jsv \<Rightarrow> doc \<Rightarrow> doc" where
  "hydrateProp cfg x kv d =
     (let key = fst kv; v = snd kv in
      if key = ''key'' then
        (if \<not> has_key d x then setAttribute x ''data-key'' (toStr v) d else d)
      else if key = ''className'' then
        (if JStr (className d x) \<noteq> v
         then setAttribute x ''class'' (toStr v) (logHydrationWarning cfg ''className mismatch'' d)
         else d)
      else if key = ''style'' \<and> is_object v then assign_style x v d
      else if is_handler key v then delegateEvent (toLowerCase (drop 2 key)) x (fun_id v) d
      else if key = ''innerHTML'' then d
      else if key = ''value'' \<and> tagName (nodes d x) \<in> {''INPUT'', ''TEXTAREA''} then
        (if get_property d x key \<noteq> v then set_property x key v d else d)
      else if key \<in> set booleanAttrs then
        (if get_property d x key \<noteq> v then set_property x key v d else d)
      else if key = ''ref'' \<and> (case v of JFun f \<Rightarrow> True | _ \<Rightarrow> False) then
        d\<lparr>refCalls := refCalls d @ [(fun_id v, x)]\<rparr>
      else if v \<noteq> JNull \<and> v \<noteq> JUndef \<and> v \<noteq> JBool False then
        (if getAttribute d x key \<noteq> Some (toStr v)
         then setAttribute x key (toStr v) (logHydrationWarning cfg ''Attribute mismatch'' d)
         else d)
      else d)"

text \<open>One entry of \<open>vnode.props\<close> in \<open>createDOMElementForHydration\<close>.\<close>

definition createProp :: "nat \<Rightarrow> string \<times> jsv \<Rightarrow> doc \<Rightarrow> doc" where
  "createProp x kv d =
     (let key = fst kv; v = snd kv in
      if key = ''key'' then setAttribute x ''data-key'' (toStr v) d
      else if key = ''className'' then setAttribute x ''class'' (toStr v) d
      else if key = ''style'' \<and> is_object v then assign_style x v d
      else if is_handler key v then delegateEvent (toLowerCase (drop 2 key)) x (fun_id v) d
      else if key = ''innerHTML'' then upd_node x (\<lambda>nd. nd\<lparr>innerHTML := Some (toStr v)\<rparr>) d
      else if key = ''ref'' \<and> (case v of JFun f \<Rightarrow> True | _ \<Rightarrow> False) then
        d\<lparr>refCalls := refCalls d @ [(fun_id v, x)]\<rparr>
      else if v \<noteq> JNull \<and> v \<noteq> JUndef \<and> v \<noteq> JBool False then setAttribute x key (toStr v) d
      else d)"

text \<open>\<open>nodesMatch(vnode, domNode)\<close>\<close>

definition nodesMatch :: "doc \<Rightarrow> vnode \<Rightarrow> nat \<Rightarrow> bool" where
  "nodesMatch d v x =
     (case v of
        VText s \<Rightarrow> nodeType (nodes d x) = TextNode
      | VNumber i \<Rightarrow> nodeType (nodes d x) = TextNode
      | VElement ty props cs \<Rightarrow>
          ty \<noteq> [] \<and> nodeType (nodes d x) = ElementNode
          \<and> toLowerCase (tagName (nodes d x)) = toLowerCase ty
          \<and> (truthy (vkey v) \<and> has_key d x \<longrightarrow> dataset_key d x = Some (toStr (vkey v)))
      | _ \<Rightarrow> False)"

text \<open>
  \<open>skipWhitespace(node)\<close>: the first node from \<open>node\<close> on that is not a text node of white
  space, or \<open>null\<close>.
\<close>

definition is_blank_text :: "doc \<Rightarrow> nat \<Rightarrow> bool" where
  "is_blank_text d x = (nodeType (nodes d x) = TextNode \<and> blank (textContent (nodes d x)))"

definition skipWhitespace :: "doc \<Rightarrow> nat option \<Rightarrow> nat option" where
  "skipWhitespace d node =
     (case node of
        None \<Rightarrow> None
      | Some x \<Rightarrow> (case dropWhile (is_blank_text d) (x # following d x) of
                     [] \<Rightarrow> None | y # ys \<Rightarrow> Some y))"

text \<open>
  The search of the keyed branch: from \<open>domChild.nextSibling\<close> on, the first node that
  \<open>nodesMatch\<close> accepts.
\<close>

definition findKeyed :: "doc \<Rightarrow> vnode \<Rightarrow> nat \<Rightarrow> nat option" where
  "findKeyed d v domChild = find (nodesMatch d v) (following d domChild)"

subsection \<open>\<open>hydrateDOMElement\<close> and \<open>createDOMElementForHydration\<close>\<close>

text \<open>
  What a call gives back: a value, or the name of the exception it threw, each with the
  document as the call left it. \<open>None\<close> around it means that the call did not come back
  within the fuel.
\<close>

datatype 'a res = Done 'a doc | Raised string doc

text \<open>The branch of \<open>hydrateDOMElement\<close> for a string or a number, \<open>s\<close> being \<open>String(vnode)\<close>.\<close>

definition hydrateText :: "hconfig \<Rightarrow> string \<Rightarrow> nat \<Rightarrow> doc \<Rightarrow> nat res" where
  "hydrateText cfg s x d =
     (if nodeType (nodes d x) = TextNode then
        (if textContent (nodes d x) \<noteq> s
         then Done x (upd_node x (\<lambda>nd. nd\<lparr>textContent := s\<rparr>)
                       (logHydrationWarning cfg ''Text node mismatch'' d))
         else Done x d)
      else
        (let made = createTextNode s (logHydrationWarning cfg ''Expected text node, got element'' d);
             t = fst made; d1 = snd made
         in case parentNode (nodes d1 x) of
              None \<Rightarrow> Done t d1
            | Some p \<Rightarrow> (case replaceChild p t x d1 of
                          Inl e \<Rightarrow> Raised e d1
                        | Inr d2 \<Rightarrow> Done t d2)))"

text \<open>
  \<^item> \<open>hydrateDOMElement n cfg vnode domNode\<close> is the function of that name;
  \<^item> \<open>hydrateSiblings\<close> is its loop over an array (\<open>currentNode\<close>, \<open>fragment\<close>);
  \<^item> \<open>hydrateChildren\<close> is its \<open>while\<close> loop over the children of \<open>element\<close>
    (\<open>vnodeIndex\<close>, \<open>domChild\<close>);
  \<^item> \<open>createDOMElementForHydration\<close> is the function of that name, and \<open>createChildren\<close>
    its \<open>forEach\<close> that creates and appends the children.

  An object without a (non-empty) \<open>type\<close> makes \<open>createDOMElementForHydration\<close> call itself
  with the same argument.
\<close>

function (sequential)
  hydrateDOMElement :: "nat \<Rightarrow> hconfig \<Rightarrow> vnode \<Rightarrow> nat \<Rightarrow> doc \<Rightarrow> nat res option"
  and hydrateSiblings ::
    "nat \<Rightarrow> hconfig \<Rightarrow> vnode list \<Rightarrow> nat option \<Rightarrow> nat \<Rightarrow> doc \<Rightarrow> nat res option"
  and hydrateChildren ::
    "nat \<Rightarrow> hconfig \<Rightarrow> nat \<Rightarrow> vnode list \<Rightarrow> nat \<Rightarrow> nat option \<Rightarrow> doc \<Rightarrow> unit res option"
  and createDOMElementForHydration :: "nat \<Rightarrow> vnode \<Rightarrow> doc \<Rightarrow> nat option res option"
  and createChildren :: "nat \<Rightarrow> vnode list \<Rightarrow> nat \<Rightarrow> doc \<Rightarrow> unit res option"
where
  "hydrateDOMElement 0 cfg v x d = None"
| "hydrateDOMElement (Suc n) cfg v x d =
     (case v of
        VNothing \<Rightarrow> Some (Done x d)
      | VText s \<Rightarrow> Some (hydrateText cfg s x d)
      | VNumber i \<Rightarrow> Some (hydrateText cfg (showInt i) x d)
      | VArray vs \<Rightarrow>
          (let made = createDocumentFragment d
           in hydrateSiblings n cfg vs (Some x) (fst made) (snd made))
      | VObject ch pch \<Rightarrow>
          (if vtruthy ch then hydrateDOMElement n cfg (the ch) x d
           else if vtruthy pch then hydrateDOMElement n cfg (the pch) x d
           else Some (Done x (logHydrationWarning cfg ''Unknown vnode structure'' d)))
      | VElement ty props cs \<Rightarrow>
          (if ty = [] then hydrateDOMElement n cfg (VArray cs) x d
           else if nodeType (nodes d x) \<noteq> ElementNode
                   \<or> toLowerCase (tagName (nodes d x)) \<noteq> toLowerCase ty then
             (case createDOMElementForHydration n v
                     (logHydrationWarning cfg
                        (if nodeType (nodes d x) \<noteq> ElementNode then ''Expected element node''
                         else ''Tag name mismatch'') d) of
                None \<Rightarrow> None
              | Some (Raised e d1) \<Rightarrow> Some (Raised e d1)
              | Some (Done None d1) \<Rightarrow> Some (Raised ''TypeError'' d1)
              | Some (Done (Some y) d1) \<Rightarrow>
                  (case parentNode (nodes d1 x) of
                     None \<Rightarrow> Some (Done y d1)
                   | Some p \<Rightarrow> (case replaceChild p y x d1 of
                                 Inl e \<Rightarrow> Some (Raised e d1)
                               | Inr d2 \<Rightarrow> Some (Done y d2))))
           else if partialHydration cfg \<and> getAttribute d x ''data-cumstack-static'' \<noteq> None then
             Some (Done x d)
           else
             (let d1 = fold (hydrateProp cfg x) props d
              in case hydrateChildren n cfg x cs 0 (skipWhitespace d1 (firstChild d1 x)) d1 of
                   None \<Rightarrow> None
                 | Some (Raised e d2) \<Rightarrow> Some (Raised e d2)
                 | Some (Done u d2) \<Rightarrow> Some (Done x d2))))"

| "hydrateSiblings 0 cfg vs currentNode fragment d = None"
| "hydrateSiblings (Suc n) cfg [] currentNode fragment d = Some (Done fragment d)"
| "hydrateSiblings (Suc n) cfg (child # vs) currentNode fragment d =
     (if child = VNothing then hydrateSiblings n cfg vs currentNode fragment d
      else
        (case currentNode of
           Some c \<Rightarrow>
             (case hydrateDOMElement n cfg child c d of
                None \<Rightarrow> None
              | Some (Raised e d1) \<Rightarrow> Some (Raised e d1)
              | Some (Done h d1) \<Rightarrow>
                  hydrateSiblings n cfg vs (nextSibling d c) fragment (appendChild fragment h d1))
         | None \<Rightarrow>
             (case createDOMElementForHydration n child d of
                None \<Rightarrow> None
              | Some (Raised e d1) \<Rightarrow> Some (Raised e d1)
              | Some (Done None d1) \<Rightarrow> hydrateSiblings n cfg vs None fragment d1
              | Some (Done (Some y) d1) \<Rightarrow>
                  hydrateSiblings n cfg vs None fragment (appendChild fragment y d1))))"

| "hydrateChildren 0 cfg element vcs vnodeIndex domChild d = None"
| "hydrateChildren (Suc n) cfg element vcs vnodeIndex domChild d =
     (if vnodeIndex < length vcs \<or> domChild \<noteq> None then
        (if vnodeIndex \<ge> length vcs then
           (let c = the domChild; nxt = nextSibling d c
            in if is_blank_text d c then
                 hydrateChildren n cfg element vcs vnodeIndex (skipWhitespace d nxt) d
               else
                 (case removeChild element c (logHydrationWarning cfg ''Extra DOM nodes'' d) of
                    Inl e \<Rightarrow> Some (Raised e d)
                  | Inr d1 \<Rightarrow>
                      hydrateChildren n cfg element vcs vnodeIndex (skipWhitespace d1 nxt) d1))
         else
           (case domChild of
              None \<Rightarrow>
                (case createDOMElementForHydration n (vcs ! vnodeIndex)
                        (logHydrationWarning cfg ''Missing DOM nodes'' d) of
                   None \<Rightarrow> None
                 | Some (Raised e d1) \<Rightarrow> Some (Raised e d1)
                 | Some (Done None d1) \<Rightarrow>
                     hydrateChildren n cfg element vcs (Suc vnodeIndex) None d1
                 | Some (Done (Some y) d1) \<Rightarrow>
                     hydrateChildren n cfg element vcs (Suc vnodeIndex) None
                       (appendChild element y d1))
            | Some c \<Rightarrow>
                (let vChild = vcs ! vnodeIndex
                 in if vChild = VNothing then
                      hydrateChildren n cfg element vcs (Suc vnodeIndex) domChild d
                    else if \<not> nodesMatch d vChild c then
                      (case (if truthy (vkey vChild) then findKeyed d vChild c else None) of
                         Some foundNode \<Rightarrow>
                           (case insertBefore element foundNode c d of
                              Inl e \<Rightarrow> Some (Raised e d)
                            | Inr d1 \<Rightarrow>
                                (case hydrateDOMElement n cfg vChild foundNode d1 of
                                   None \<Rightarrow> None
                                 | Some (Raised e d2) \<Rightarrow> Some (Raised e d2)
                                 | Some (Done h d2) \<Rightarrow>
                                     hydrateChildren n cfg element vcs (Suc vnodeIndex)
                                       (skipWhitespace d2 (nextSibling d1 foundNode)) d2))
                       | None \<Rightarrow>
                           (case createDOMElementForHydration n vChild
                                   (logHydrationWarning cfg ''Node mismatch, replacing'' d) of
                              None \<Rightarrow> None
                            | Some (Raised e d1) \<Rightarrow> Some (Raised e d1)
                            | Some (Done newChild d1) \<Rightarrow>
                                (case (case newChild of
                                         None \<Rightarrow> Inr d1
                                       | Some y \<Rightarrow> replaceChild element y c d1) of
                                   Inl e \<Rightarrow> Some (Raised e d1)
                                 | Inr d2 \<Rightarrow>
                                     hydrateChildren n cfg element vcs (Suc vnodeIndex)
                                       (skipWhitespace d2 (nextSibling d2 c)) d2)))
                    else
                      (case hydrateDOMElement n cfg vChild c d of
                         None \<Rightarrow> None
                       | Some (Raised e d1) \<Rightarrow> Some (Raised e d1)
                       | Some (Done h d1) \<Rightarrow>
                           hydrateChildren n cfg element vcs (Suc vnodeIndex)
                             (skipWhitespace d1 (nextSibling d c)) d1))))
      else Some (Done () d))"

| "createDOMElementForHydration 0 v d = None"
| "createDOMElementForHydration (Suc n) v d =
     (case v of
        VNothing \<Rightarrow> Some (Done None d)
      | VText s \<Rightarrow> (let made = createTextNode s d in Some (Done (Some (fst made)) (snd made)))
      | VNumber i \<Rightarrow>
          (let made = createTextNode (showInt i) d in Some (Done (Some (fst made)) (snd made)))
      | VArray vs \<Rightarrow>
          (let made = createDocumentFragment d; fragment = fst made
           in case createChildren n vs fragment (snd made) of
                None \<Rightarrow> None
              | Some (Raised e d2) \<Rightarrow> Some (Raised e d2)
              | Some (Done u d2) \<Rightarrow> Some (Done (Some fragment) d2))
      | VObject ch pch \<Rightarrow> createDOMElementForHydration n v d
      | VElement ty props cs \<Rightarrow>
          (if ty = [] then createDOMElementForHydration n v d
           else
             (let made = createElement ty d; element = fst made
              in case createChildren n cs element (fold (createProp element) props (snd made)) of
                   None \<Rightarrow> None
                 | Some (Raised e d2) \<Rightarrow> Some (Raised e d2)
                 | Some (Done u d2) \<Rightarrow> Some (Done (Some element) d2))))"

| "createChildren 0 vs p d = None"
| "createChildren (Suc n) [] p d = Some (Done () d)"
| "createChildren (Suc n) (child # vs) p d =
     (case createDOMElementForHydration n child d of
        None \<Rightarrow> None
      | Some (Raised e d1) \<Rightarrow> Some (Raised e d1)
      | Some (Done None d1) \<Rightarrow> createChildren n vs p d1
      | Some (Done (Some y) d1) \<Rightarrow> createChildren n vs p (appendChild p y d1))"
  by pat_completeness auto

termination
  by (relation "measure (case_sum (case_sum fst fst) (case_sum fst (case_sum fst fst)))") auto

subsection \<open>Markup\<close>

text \<open>
  Markup as the browser parses it into the document (\<open>parse_html\<close>) and as a subtree of the
  document reads (\<open>view\<close>, to a given depth).
\<close>

datatype html = HText string | HElem string "(string \<times> string) list" "html list"

fun parse_html :: "html \<Rightarrow> doc \<Rightarrow> nat \<times> doc"
  and parse_children :: "html list \<Rightarrow> nat \<Rightarrow> doc \<Rightarrow> doc"
where
  "parse_html (HText s) d = createTextNode s d"
| "parse_html (HElem tag attrs cs) d =
     (let made = createElement tag d; x = fst made
      in (x, parse_children cs x (fold (\<lambda>kv. setAttribute x (fst kv) (snd kv)) attrs (snd made))))"
| "parse_children [] p d = d"
| "parse_children (c # cs) p d =
     (let made = parse_html c d in parse_children cs p (appendChild p (fst made) (snd made)))"

fun view :: "nat \<Rightarrow> doc \<Rightarrow> nat \<Rightarrow> html" where
  "view 0 d x = HText []"
| "view (Suc n) d x =
     (if nodeType (nodes d x) = ElementNode
      then HElem (tagName (nodes d x)) (attributes (nodes d x)) (map (view n d) (childNodes (nodes d x)))
      else HText (textContent (nodes d x)))"

text \<open>
  The structure that a virtual node describes, and the structure of markup (\<open>skeleton\<close>): tags, text and
  children, without attributes and without text nodes of white space.
\<close>

fun describes :: "vnode \<Rightarrow> html list" where
  "describes VNothing = []"
| "describes (VText s) = [HText s]"
| "describes (VNumber i) = [HText (showInt i)]"
| "describes (VArray vs) = concat (map describes vs)"
| "describes (VElement ty props cs) = [HElem (toUpperCase ty) [] (concat (map describes cs))]"
| "describes (VObject ch pch) =
     (case ch of Some v \<Rightarrow> describes v | None \<Rightarrow> (case pch of Some v \<Rightarrow> describes v | None \<Rightarrow> []))"

fun skeleton :: "html \<Rightarrow> html list" where
  "skeleton (HText s) = (if blank s then [] else [HText s])"
| "skeleton (HElem tag attrs cs) = [HElem tag [] (concat (map skeleton cs))]"

definition empty_doc :: doc where
  "empty_doc = \<lparr>nodes = (\<lambda>_. blank_node), created = 0, warnings = [], delegatedEvents = [],
                 refCalls = []\<rparr>"

definition dev_config :: hconfig where
  "dev_config = \<lparr>isProduction = False, logMismatches = True, partialHydration = False\<rparr>"

text \<open>
  \<open><div><p></p><b></b></div>\<close> against \<open>{type: 'div', children: [{type: 'span'}]}\<close>.
\<close>

definition two_children :: "nat \<times> doc" where
  "two_children = parse_html (HElem ''div'' [] [HElem ''p'' [] [], HElem ''b'' [] []]) empty_doc"

definition one_span :: vnode where
  "one_span = VElement ''div'' [] [VElement ''span'' [] []]"

text \<open>
  The same markup against \<open>{type: 'div', children: [{type: 'span'}, {type: 'b'}]}\<close> and
  against \<open>{type: 'div', children: [{type: 'p'}]}\<close>.
\<close>

definition span_and_b :: vnode where
  "span_and_b = VElement ''div'' [] [VElement ''span'' [] [], VElement ''b'' [] []]"

definition only_p :: vnode where
  "only_p = VElement ''div'' [] [VElement ''p'' [] []]"

text \<open>
  \<open><div></div>\<close> against \<open>{type: 'div', children: [{children: ['x']}]}\<close>, whose child is an
  object without \<open>type\<close>.
\<close>

definition no_children :: "nat \<times> doc" where
  "no_children = parse_html (HElem ''div'' [] []) empty_doc"

definition typeless_child :: vnode where
  "typeless_child = VElement ''div'' [] [VObject (Some (VArray [VText ''x''])) None]"









text \<open>
  What a statement about a finished call looks at: the value that came back (\<open>None\<close> for an
  exception) and a reading of the document.
\<close>

definition returned :: "'a res \<Rightarrow> 'a option" where
  "returned r = (case r of Done v d \<Rightarrow> Some v | Raised e d \<Rightarrow> None)"

definition doc_of :: "'a res \<Rightarrow> doc" where
  "doc_of r = (case r of Done v d \<Rightarrow> d | Raised e d \<Rightarrow> d)"

definition outcome_of :: "'a res option \<Rightarrow> (doc \<Rightarrow> 'b) \<Rightarrow> ('a option \<times> 'b) option" where
  "outcome_of m f = map_option (\<lambda>r. (returned r, f (doc_of r))) m"

section \<open>Mounting (\<open>cowgirl\<close>)\<close>

text \<open>
  What a caller passes as \<open>container\<close>: a selector string, a node, or a value that is
  neither. The page answers \<open>document.querySelector\<close> and \<open>instanceof HTMLElement\<close>, holds
  the module variables \<open>clientRouter\<close> (whether it is set) and \<open>isRouterInitialized\<close>, and
  has the segments of \<open>window.location.pathname\<close> (\<open>split("/").filter(Boolean)\<close>).
\<close>

datatype mount_target = Selector string | NodeRef nat | NotANode

record page =
  querySelector :: "string \<Rightarrow> nat option"
  isHTMLElement :: "nat \<Rightarrow> bool"
  hasRouter :: bool
  isRouterInitialized :: bool
  pathSegments :: "string list"

text \<open>The calls that a mount function makes, in their order.\<close>

datatype mount_step = InitHMR | ExposeInitComponents | ClearPreferredLanguage | SetLanguage
  | SetupNavigation | InitComponents
  | CreateRouter | InitRouter | CreateEffect | AddClickListener | SetupPrefetching

definition container_error :: string where
  "container_error = ''cumstack: Container must be a valid HTMLElement or selector''"

text \<open>
  \<open>cowgirl\<close> of client.js: \<open>containerEl\<close>, the guard that throws, and then the router, the
  effect (\<open>onClimax\<close>), the click listener and the prefetching.
\<close>

definition containerEl :: "page \<Rightarrow> mount_target \<Rightarrow> nat option" where
  "containerEl pg container =
     (case container of
        Selector s \<Rightarrow> querySelector pg s
      | NodeRef x \<Rightarrow> Some x
      | NotANode \<Rightarrow> None)"

definition cowgirl_client :: "page \<Rightarrow> mount_target \<Rightarrow> string + mount_step list" where
  "cowgirl_client pg container =
     (case containerEl pg container of
        None \<Rightarrow> Inl container_error
      | Some x \<Rightarrow>
          (if \<not> isHTMLElement pg x then Inl container_error
           else Inr ((if hasRouter pg then [] else [CreateRouter])
                     @ (if isRouterInitialized pg then [] else [InitRouter])
                     @ [CreateEffect, AddClickListener, SetupPrefetching])))"

text \<open>
  \<open>cowgirl\<close> of client/index.js, the one that the package entry point exports: it reads
  neither \<open>app\<close> nor \<open>container\<close>. \<open>setupNavigation\<close> rewrites the \<open>href\<close> of the links of the page
  and adds a click listener to the document; \<open>initComponents\<close> removes \<open>onclick\<close> attributes
  and adds listeners to buttons.
\<close>

definition cowgirl :: "page \<Rightarrow> mount_target \<Rightarrow> string + mount_step list" where
  "cowgirl pg container =
     Inr ([InitHMR, ExposeInitComponents]
          @ (case pathSegments pg of
               [] \<Rightarrow> [ClearPreferredLanguage]
             | s # ss \<Rightarrow> (if length s = 2 then [] else [ClearPreferredLanguage]))
          @ [SetLanguage, SetupNavigation, InitComponents])"

section \<open>Concrete states\<close>

text \<open>A signal that holds \<open>5\<close> and has one subscriber, effect \<open>0\<close>.\<close>

definition st_five :: rt where
  "st_five = rt0\<lparr>signals := (signals rt0)(0 := \<lparr>sig_value = VNum 5, subscribers = [0]\<rparr>),
                 nextSid := 1, nextEid := 1\<rparr>"




text \<open>
  The memo of the specification's example:
  \<open>const [s, setS] = createMoan(1); const m = knotMemo(() => s() % 2);
    onClimax(() => { m() }); setS(1); setS(3); setS(5)\<close>.
  Signal \<open>0\<close> is \<open>s\<close>, signal \<open>1\<close> the memo's output, effect \<open>0\<close> the memo's own effect,
  effect \<open>1\<close> the subscriber of \<open>m\<close>.
\<close>

definition memo_fn :: prog where
  "memo_fn = Read 0 (\<lambda>v. Ret (mod2 v))"

definition memo_script :: "(rt \<Rightarrow> (outcome \<times> rt) option) list" where
  "memo_script =
     [createMoan_stmt (VNum 1),
      knotMemo_stmt 20 memo_fn,
      onClimax 20 (Read 1 (\<lambda>_. Ret VUndef)),
      setter 20 0 (Literal (VNum 1)),
      setter 20 0 (Literal (VNum 3)),
      setter 20 0 (Literal (VNum 5))]"

text \<open>
  An effect that throws, run from inside \<open>untrack\<close> in another effect:
  \<open>const [a, setA] = createMoan(0); const [b, setB] = createMoan(0); const [c] = createMoan(0);
    onClimax(() => { if (a() !== 0) throw "boom" });
    onClimax(() => { b(); untrack(() => { setA(1); c() }) });
    setA(0); setB(1)\<close>.
  Signals \<open>0, 1, 2\<close> are \<open>a, b, c\<close>; effect \<open>0\<close> throws, effect \<open>1\<close> is the outer one.
\<close>

definition throwing_fn :: prog where
  "throwing_fn = Read 0 (\<lambda>v. if v = VNum 0 then Ret VUndef else Throw (VStr ''boom''))"

definition outer_fn :: prog where
  "outer_fn = Read 1 (\<lambda>_. Untrack (Write 0 (VNum 1) (Read 2 (\<lambda>_. Ret VUndef))) (Ret VUndef))"

definition untrack_script :: "(rt \<Rightarrow> (outcome \<times> rt) option) list" where
  "untrack_script =
     [createMoan_stmt (VNum 0), createMoan_stmt (VNum 0), createMoan_stmt (VNum 0),
      onClimax 20 throwing_fn,
      onClimax 20 outer_fn,
      setter 20 0 (Literal (VNum 0)),
      setter 20 1 (Literal (VNum 1))]"

text \<open>
  The state in which the throwing effect is called in that script: the outer effect is on
  the stack, \<open>untrack\<close> has set \<open>currentEffect\<close> to \<open>null\<close>, and \<open>a\<close> has just become \<open>1\<close>.
\<close>

definition inside_untrack :: rt where
  "inside_untrack =
     rt0\<lparr>effectStack := [1], currentEffect := None,
         signals := (\<lambda>_. init_signal)
           (0 := \<lparr>sig_value = VNum 1, subscribers = [0]\<rparr>,
            1 := \<lparr>sig_value = VNum 1, subscribers = [1]\<rparr>,
            2 := \<lparr>sig_value = VNum 0, subscribers = []\<rparr>),
         effects := (\<lambda>_. init_effect)
           (0 := \<lparr>fn = throwing_fn, disposed = False, cleanup = []\<rparr>,
            1 := \<lparr>fn = outer_fn, disposed = False, cleanup = []\<rparr>),
         nextSid := 3, nextEid := 2\<rparr>"

text \<open>
  A signal, a memo of it and an effect that reads both, then a batch that writes the signal:
  \<open>const [s, setS] = createMoan(1); const m = knotMemo(() => s());
    onClimax(() => { s(); m() }); batch(() => setS(2))\<close>.
  Effect \<open>0\<close> is the memo's own, effect \<open>1\<close> the reader.
\<close>

definition diamond_script :: "(rt \<Rightarrow> (outcome \<times> rt) option) list" where
  "diamond_script =
     [createMoan_stmt (VNum 1),
      knotMemo_stmt 30 (Read 0 (\<lambda>v. Ret v)),
      onClimax 30 (Read 0 (\<lambda>_. Read 1 (\<lambda>_. Ret VUndef))),
      batch 30 (TProg (Write 0 (VNum 2) (Ret VUndef)))]"

text \<open>
  \<open>const [s, setS] = createMoan(5); onClimax(() => { s() }); batch(() => setS(5))\<close>
\<close>

definition same_value_script :: "(rt \<Rightarrow> (outcome \<times> rt) option) list" where
  "same_value_script =
     [createMoan_stmt (VNum 5),
      onClimax 30 (Read 0 (\<lambda>_. Ret VUndef)),
      batch 30 (TProg (Write 0 (VNum 5) (Ret VUndef)))]"

text \<open>
  Three signals holding \<open>0\<close>; effect \<open>0\<close> reads the first, effect \<open>1\<close> reads the first two,
  and effect \<open>2\<close> copies the third into the first: \<open>onClimax(() => setA(c()))\<close>. The
  function given to \<open>batch\<close> is \<open>() => { batch(() => { setA(1); setB(1) }); setA(2) }\<close>.
\<close>

definition st_trio :: rt where
  "st_trio =
     rt0\<lparr>signals := (\<lambda>_. init_signal)
           (0 := \<lparr>sig_value = VNum 0, subscribers = [0, 1]\<rparr>,
            1 := \<lparr>sig_value = VNum 0, subscribers = [1]\<rparr>,
            2 := \<lparr>sig_value = VNum 0, subscribers = [2]\<rparr>),
         effects := (\<lambda>_. init_effect)
           (0 := \<lparr>fn = Read 0 (\<lambda>_. Ret VUndef), disposed = False, cleanup = []\<rparr>,
            1 := \<lparr>fn = Read 0 (\<lambda>_. Read 1 (\<lambda>_. Ret VUndef)), disposed = False, cleanup = []\<rparr>,
            2 := \<lparr>fn = Read 2 (\<lambda>v. Write 0 v (Ret VUndef)), disposed = False, cleanup = []\<rparr>),
         nextSid := 3, nextEid := 3\<rparr>"

definition nested_writes :: prog where
  "nested_writes =
     Batch (Write 0 (VNum 1) (Write 1 (VNum 1) (Ret VUndef))) (Write 0 (VNum 2) (Ret VUndef))"

text \<open>
  Inside the memo's effect of \<open>memo_script\<close> when \<open>s\<close> has become \<open>3\<close>: the memo is
  initialised and its cached value is \<open>1\<close>.
\<close>

definition st_memo :: rt where
  "st_memo =
     rt0\<lparr>currentEffect := Some 0, effectStack := [0],
         signals := (\<lambda>_. init_signal)
           (0 := \<lparr>sig_value = VNum 3, subscribers = [0]\<rparr>,
            1 := \<lparr>sig_value = VNum 1, subscribers = [1]\<rparr>),
         effects := (\<lambda>_. init_effect)
           (0 := \<lparr>fn = memo_body memo_fn 0 1 1, disposed = False, cleanup = []\<rparr>,
            1 := \<lparr>fn = Read 1 (\<lambda>_. Ret VUndef), disposed = False, cleanup = []\<rparr>),
         vars := (\<lambda>_. VUndef)(0 := VBool True, 1 := VNum 1),
         nextSid := 2, nextEid := 2, nextVid := 2\<rparr>"


text \<open>
  The same signals and effects when the memo's effect has returned, and user code that
  writes a third signal and reads the memo: \<open>setT(7); return m()\<close>.
\<close>

definition st_returned :: rt where
  "st_returned = st_memo\<lparr>currentEffect := None, effectStack := []\<rparr>"

definition reads_memo :: prog where
  "reads_memo = Write 2 (VNum 7) (Read 1 (\<lambda>v. Ret v))"

text \<open>The state in which \<open>memo_script\<close> calls \<open>knotMemo\<close>.\<close>

definition st_one :: rt where
  "st_one = snd (createMoan (VNum 1) rt0)"

text \<open>
  A signal \<open>s\<close>, a memo of it that has settled, and an effect that reads the memo only:
  \<open>const [s, setS] = createMoan(1); const m = knotMemo(() => s()); onClimax(() => { m() })\<close>.
  Effect \<open>0\<close> is the memo's own, effect \<open>1\<close> the reader; the function given to \<open>batch\<close> is
  \<open>() => setS(2)\<close>.
\<close>

definition st_chain :: rt where
  "st_chain =
     rt0\<lparr>signals := (\<lambda>_. init_signal)
           (0 := \<lparr>sig_value = VNum 1, subscribers = [0]\<rparr>,
            1 := \<lparr>sig_value = VNum 1, subscribers = [1]\<rparr>),
         effects := (\<lambda>_. init_effect)
           (0 := \<lparr>fn = memo_body (Read 0 (\<lambda>v. Ret v)) 0 1 1, disposed = False, cleanup = []\<rparr>,
            1 := \<lparr>fn = Read 1 (\<lambda>_. Ret VUndef), disposed = False, cleanup = []\<rparr>),
         vars := (\<lambda>_. VUndef)(0 := VBool True, 1 := VNum 1),
         nextSid := 2, nextEid := 2, nextVid := 2\<rparr>"

definition write_two :: prog where
  "write_two = Write 0 (VNum 2) (Ret VUndef)"
section \<open>Properties of the reactive runtime\<close>

subsection \<open>More fuel never changes a result\<close>

lemma fuel_step:
  shows "\<forall>p st r. exec n p st = Some r \<longrightarrow> exec (Suc n) p st = Some r"
    and "\<forall>s v st r. write_sig n s v st = Some r \<longrightarrow> write_sig (Suc n) s v st = Some r"
    and "\<forall>s es st r. notify n s es st = Some r \<longrightarrow> notify (Suc n) s es st = Some r"
    and "\<forall>e st r'. effect n e st = Some r' \<longrightarrow> effect (Suc n) e st = Some r'"
    and "\<forall>e i len st r. forEach n e i len st = Some r \<longrightarrow> forEach (Suc n) e i len st = Some r"
    and "\<forall>t st r. batch n t st = Some r \<longrightarrow> batch (Suc n) t st = Some r"
    and "\<forall>es st r'. drain n es st = Some r' \<longrightarrow> drain (Suc n) es st = Some r'"
proof (induction n)
  case 0
  { case 1 then show ?case by simp }
  { case 2 then show ?case by simp }
  { case 3 then show ?case by simp }
  { case 4 then show ?case by simp }
  { case 5 then show ?case by simp }
  { case 6 then show ?case by simp }
  { case 7 then show ?case by simp }
next
  case (Suc n)
  note e = Suc.IH(1)[rule_format] and w = Suc.IH(2)[rule_format] and no = Suc.IH(3)[rule_format]
    and ef = Suc.IH(4)[rule_format] and fe = Suc.IH(5)[rule_format] and ba = Suc.IH(6)[rule_format]
    and dr = Suc.IH(7)[rule_format]
  { case 1 show ?case
    proof (intro allI impI)
      fix p st r assume "exec (Suc n) p st = Some r"
      then show "exec (Suc (Suc n)) p st = Some r"
        by (cases p) (auto simp del: write_sig.simps batch.simps
              split: option.splits outcome.splits prod.splits dest!: w e ba)
    qed }
  { case 2 show ?case
      by (auto simp del: notify.simps split: if_splits dest!: no) }
  { case 3 show ?case
    proof (intro allI impI)
      fix s es st r assume "notify (Suc n) s es st = Some r"
      then show "notify (Suc (Suc n)) s es st = Some r"
        by (cases es) (auto simp del: effect.simps split: if_splits option.splits dest!: no ef)
    qed }
  { case 4 show ?case
      by (auto simp del: forEach.simps
            split: if_splits option.splits outcome.splits prod.splits dest!: fe e) }
  { case 5 show ?case
    proof (intro allI impI)
      fix e i len st r assume "forEach (Suc n) e i len st = Some r"
      then show "forEach (Suc (Suc n)) e i len st = Some r"
        apply (subst (asm) forEach.simps(2))
        apply (subst forEach.simps(2))
        apply (auto simp del: forEach.simps
                 split: if_splits option.splits outcome.splits prod.splits dest!: fe e)
        done
    qed }
  { case 6 show ?case
    proof (intro allI impI)
      fix t st r assume "batch (Suc n) t st = Some r"
      then show "batch (Suc (Suc n)) t st = Some r"
        by (cases t) (auto simp: Let_def simp del: effect.simps drain.simps
              split: if_splits option.splits prod.splits dest!: dr ef e)
    qed }
  { case 7 show ?case
    proof (intro allI impI)
      fix es st r assume "drain (Suc n) es st = Some r"
      then show "drain (Suc (Suc n)) es st = Some r"
        by (cases es) (auto simp del: effect.simps split: if_splits option.splits dest!: dr ef)
    qed }
qed

lemma exec_mono: "exec n p st = Some r \<Longrightarrow> n \<le> m \<Longrightarrow> exec m p st = Some r"
  by (induction m) (auto simp: le_Suc_eq fuel_step(1)[rule_format])

lemma write_sig_mono: "write_sig n s v st = Some r \<Longrightarrow> n \<le> m \<Longrightarrow> write_sig m s v st = Some r"
  by (induction m) (auto simp del: write_sig.simps simp: le_Suc_eq fuel_step(2)[rule_format])

lemma notify_mono: "notify n s es st = Some r \<Longrightarrow> n \<le> m \<Longrightarrow> notify m s es st = Some r"
  by (induction m) (auto simp: le_Suc_eq fuel_step(3)[rule_format])

lemma effect_mono: "effect n e st = Some r \<Longrightarrow> n \<le> m \<Longrightarrow> effect m e st = Some r"
  by (induction m) (auto simp del: effect.simps simp: le_Suc_eq fuel_step(4)[rule_format])

lemma forEach_mono:
  "forEach n e i len st = Some r \<Longrightarrow> n \<le> m \<Longrightarrow> forEach m e i len st = Some r"
  by (induction m) (auto simp del: forEach.simps simp: le_Suc_eq fuel_step(5)[rule_format])

lemma batch_mono: "batch n t st = Some r \<Longrightarrow> n \<le> m \<Longrightarrow> batch m t st = Some r"
  by (induction m) (auto simp del: batch.simps simp: le_Suc_eq fuel_step(6)[rule_format])

lemma drain_mono: "drain n es st = Some r \<Longrightarrow> n \<le> m \<Longrightarrow> drain m es st = Some r"
  by (induction m) (auto simp: le_Suc_eq fuel_step(7)[rule_format])

subsection \<open>What the state updates leave alone\<close>

lemma emit_fields [simp]:
  "currentEffect (emit ev st) = currentEffect st"
  "effectStack (emit ev st) = effectStack st"
  "batchDepth (emit ev st) = batchDepth st"
  "pending (emit ev st) = pending st"
  "schedule (emit ev st) = schedule st"
  "signals (emit ev st) = signals st"
  "effects (emit ev st) = effects st"
  "vars (emit ev st) = vars st"
  "trace (emit ev st) = trace st @ [ev]"
  by (simp_all add: emit_def)

lemma effect_exit_fields [simp]:
  "effectStack (effect_exit st) = butlast (effectStack st)"
  "currentEffect (effect_exit st) =
     (if butlast (effectStack st) = [] then None else Some (last (butlast (effectStack st))))"
  "batchDepth (effect_exit st) = batchDepth st"
  "pending (effect_exit st) = pending st"
  "schedule (effect_exit st) = schedule st"
  "signals (effect_exit st) = signals st"
  "effects (effect_exit st) = effects st"
  "vars (effect_exit st) = vars st"
  "trace (effect_exit st) = trace st"
  by (simp_all add: effect_exit_def Let_def)

lemma upd_effect_fields [simp]:
  "currentEffect (upd_effect e f st) = currentEffect st"
  "effectStack (upd_effect e f st) = effectStack st"
  "batchDepth (upd_effect e f st) = batchDepth st"
  "pending (upd_effect e f st) = pending st"
  "schedule (upd_effect e f st) = schedule st"
  "signals (upd_effect e f st) = signals st"
  "effects (upd_effect e f st) = (effects st)(e := f (effects st e))"
  "vars (upd_effect e f st) = vars st"
  "trace (upd_effect e f st) = trace st"
  by (simp_all add: upd_effect_def)

lemma upd_signal_fields [simp]:
  "currentEffect (upd_signal s f st) = currentEffect st"
  "effectStack (upd_signal s f st) = effectStack st"
  "batchDepth (upd_signal s f st) = batchDepth st"
  "pending (upd_signal s f st) = pending st"
  "schedule (upd_signal s f st) = schedule st"
  "signals (upd_signal s f st) = (signals st)(s := f (signals st s))"
  "effects (upd_signal s f st) = effects st"
  "vars (upd_signal s f st) = vars st"
  "trace (upd_signal s f st) = trace st"
  by (simp_all add: upd_signal_def)

lemma read_fields [simp]:
  "fst (read s st) = sig_value (signals st s)"
  "currentEffect (snd (read s st)) = currentEffect st"
  "effectStack (snd (read s st)) = effectStack st"
  "batchDepth (snd (read s st)) = batchDepth st"
  "pending (snd (read s st)) = pending st"
  "schedule (snd (read s st)) = schedule st"
  "effects (snd (read s st)) = effects st"
  "vars (snd (read s st)) = vars st"
  "trace (snd (read s st)) = trace st"
  by (simp_all add: read_def split: option.splits)

lemma read_signals:
  "signals (snd (read s st)) =
     (case currentEffect st of
        None \<Rightarrow> signals st
      | Some e \<Rightarrow> (signals st)(s := (signals st s)\<lparr>subscribers := set_add (subscribers (signals st s)) e\<rparr>))"
  by (simp add: read_def split: option.splits)

subsection \<open>Subscriber sets only grow\<close>

lemma subs_le_refl [simp]: "subs_le g g"
  by (simp add: subs_le_def)

lemma subs_le_trans: "subs_le a b \<Longrightarrow> subs_le b c \<Longrightarrow> subs_le a c"
  unfolding subs_le_def by blast

lemma subs_le_read: "subs_le (signals st) (signals (snd (read s st)))"
  by (auto simp: subs_le_def read_signals set_add_def split: option.splits)

lemma subs_le_setval: "subs_le g (g(s := (g s)\<lparr>sig_value := v\<rparr>))"
  by (auto simp: subs_le_def)

lemma subs_mono_all:
  shows "\<forall>p st r st'. exec n p st = Some (r, st') \<longrightarrow> subs_le (signals st) (signals st')"
    and "\<forall>s v st r st'. write_sig n s v st = Some (r, st') \<longrightarrow> subs_le (signals st) (signals st')"
    and "\<forall>s es st r st'. notify n s es st = Some (r, st') \<longrightarrow> subs_le (signals st) (signals st')"
    and "\<forall>e st st'. effect n e st = Some st' \<longrightarrow> subs_le (signals st) (signals st')"
    and "\<forall>e i len st r st'. forEach n e i len st = Some (r, st') \<longrightarrow> subs_le (signals st) (signals st')"
    and "\<forall>t st r st'. batch n t st = Some (r, st') \<longrightarrow> subs_le (signals st) (signals st')"
    and "\<forall>es st st'. drain n es st = Some st' \<longrightarrow> subs_le (signals st) (signals st')"
proof (induction n)
  case 0
  { case 1 then show ?case by simp }
  { case 2 then show ?case by simp }
  { case 3 then show ?case by simp }
  { case 4 then show ?case by simp }
  { case 5 then show ?case by simp }
  { case 6 then show ?case by simp }
  { case 7 then show ?case by simp }
next
  case (Suc n)
  note e = Suc.IH(1)[rule_format] and w = Suc.IH(2)[rule_format] and no = Suc.IH(3)[rule_format]
    and ef = Suc.IH(4)[rule_format] and fe = Suc.IH(5)[rule_format] and ba = Suc.IH(6)[rule_format]
    and dr = Suc.IH(7)[rule_format]
  { case 1 show ?case
    proof (intro allI impI)
      fix p st r st' assume a: "exec (Suc n) p st = Some (r, st')"
      show "subs_le (signals st) (signals st')"
      proof (cases p)
        case (Read s k)
        with a have "exec n (k (sig_value (signals st s))) (snd (read s st)) = Some (r, st')"
          by simp
        from e[OF this] subs_le_read[of st s] show ?thesis by (rule subs_le_trans[rotated])
      qed (use a in \<open>auto simp del: write_sig.simps batch.simps
                 split: option.splits outcome.splits prod.splits dest!: w e ba
                 intro: subs_le_trans\<close>)
    qed }
  { case 2 show ?case
      by (auto simp del: notify.simps split: if_splits dest!: no
            intro: subs_le_trans[OF subs_le_setval]) }
  { case 3 show ?case
    proof (intro allI impI)
      fix s es st r st' assume "notify (Suc n) s es st = Some (r, st')"
      then show "subs_le (signals st) (signals st')"
        by (cases es) (auto simp del: effect.simps split: if_splits option.splits
              dest!: no ef intro: subs_le_trans)
    qed }
  { case 4 show ?case
      by (auto simp del: forEach.simps
            split: if_splits option.splits outcome.splits prod.splits dest!: fe e
            intro: subs_le_trans) }
  { case 5 show ?case
    proof (intro allI impI)
      fix e i len st r st' assume "forEach (Suc n) e i len st = Some (r, st')"
      then show "subs_le (signals st) (signals st')"
        apply (subst (asm) forEach.simps(2))
        apply (auto simp del: forEach.simps
                 split: if_splits option.splits outcome.splits prod.splits dest!: fe e
                 intro: subs_le_trans)
        done
    qed }
  { case 6 show ?case
    proof (intro allI impI)
      fix t st r st' assume "batch (Suc n) t st = Some (r, st')"
      then show "subs_le (signals st) (signals st')"
        by (cases t) (auto simp: Let_def simp del: effect.simps drain.simps
              split: if_splits option.splits prod.splits dest!: dr ef e intro: subs_le_trans)
    qed }
  { case 7 show ?case
    proof (intro allI impI)
      fix es st st' assume "drain (Suc n) es st = Some st'"
      then show "subs_le (signals st) (signals st')"
        by (cases es) (auto simp del: effect.simps split: if_splits option.splits
              dest!: dr ef intro: subs_le_trans)
    qed }
qed




subsection \<open>User code inside an open batch\<close>

lemma defers_refl: "deferred st \<Longrightarrow> defers st st []"
  by (auto simp: defers_def deferred_def)

lemma defers_trans:
  assumes "defers a b ss1" "defers b c ss2" 
  shows "defers a c (ss1 @ ss2)"
proof -
  have sub: "subs_le (signals a) (signals b)" using assms by (simp add: defers_def)
  have "set (subscribers (signals a s)) \<subseteq> set (ss1 @ ss2)"
    if "sig_value (signals c s) \<noteq> sig_value (signals a s)" for s
  proof (cases "sig_value (signals b s) = sig_value (signals a s)")
    case True
    with that assms(2) have "set (subscribers (signals b s)) \<subseteq> set ss2"
      by (simp add: defers_def)
    with sub show ?thesis by (auto simp: subs_le_def)
  next
    case False
    with assms(1) show ?thesis by (auto simp: defers_def)
  qed
  with assms show ?thesis
    by (auto simp: defers_def intro: subs_le_trans)
qed

lemma notify_deferred:
  assumes "schedule st" "pending st = Some ps" "set es \<subseteq> set (subscribers (signals st s))"
  shows "notify (Suc (length es)) s es st =
           Some (Returned VUndef, st\<lparr>pending := Some (foldl set_add ps es),
                                    trace := trace st @ map Scheduled es\<rparr>)"
  using assms
proof (induction es arbitrary: st ps)
  case Nil
  then show ?case by simp
next
  case (Cons e es)
  then show ?case by (simp add: emit_def)
qed

lemma write_deferred:
  assumes "deferred st"
  shows "\<exists>n st' ss. write_sig n s v st = Some (Returned VUndef, st') \<and> defers st st' ss \<and> deferred st'"
proof (cases "sig_value (signals st s) = v")
  case True
  with assms have "write_sig (Suc 0) s v st = Some (Returned VUndef, st)" by simp
  with defers_refl[OF assms] assms show ?thesis by blast
next
  case False
  from assms obtain ps where ps: "pending st = Some ps" by (auto simp: deferred_def)
  let ?es = "subscribers (signals st s)"
  let ?st1 = "upd_signal s (\<lambda>g. g\<lparr>sig_value := v\<rparr>) st"
  let ?st2 = "?st1\<lparr>pending := Some (foldl set_add ps ?es), trace := trace ?st1 @ map Scheduled ?es\<rparr>"
  have "notify (Suc (length ?es)) s ?es ?st1 = Some (Returned VUndef, ?st2)"
    using assms ps by (intro notify_deferred) (auto simp: deferred_def)
  with False have "write_sig (Suc (Suc (length ?es))) s v st = Some (Returned VUndef, ?st2)"
    by simp
  moreover have "defers st ?st2 ?es"
    using assms ps by (auto simp: defers_def deferred_def subs_le_def)
  moreover have "deferred ?st2" using assms by (simp add: deferred_def)
  ultimately show ?thesis by blast
qed


lemma defers_deferred: "defers st st' ss \<Longrightarrow> deferred st \<Longrightarrow> deferred st'"
  by (auto simp: defers_def deferred_def)

lemma defers_read: "deferred st \<Longrightarrow> defers st (snd (read s st)) []"
  using subs_le_read[of st s]
  by (auto simp: defers_def deferred_def read_signals split: option.splits)

lemma exec_deferred:
  "deferred st \<Longrightarrow> \<exists>n r st' ss. exec n p st = Some (r, st') \<and> defers st st' ss"
proof (induction p arbitrary: st)
  case (Ret v)
  then have "exec (Suc 0) (Ret v) st = Some (Returned v, st)" "defers st st []"
    by (simp_all add: defers_refl)
  then show ?case by blast
next
  case (RetFn c)
  then have "exec (Suc 0) (RetFn c) st = Some (ReturnedFn c, st)" "defers st st []"
    by (simp_all add: defers_refl)
  then show ?case by blast
next
  case (Throw v)
  then have "exec (Suc 0) (Throw v) st = Some (Thrown v, st)" "defers st st []"
    by (simp_all add: defers_refl)
  then show ?case by blast
next
  case (Read s k)
  let ?st1 = "snd (read s st)"
  have d1: "defers st ?st1 []" using Read.prems by (rule defers_read)
  then have "deferred ?st1" using Read.prems by (rule defers_deferred)
  from Read.IH[OF rangeI this] obtain n r st' ss
    where "exec n (k (sig_value (signals st s))) ?st1 = Some (r, st')" "defers ?st1 st' ss"
    by blast
  then have "exec (Suc n) (Read s k) st = Some (r, st')" "defers st st' ([] @ ss)"
    using defers_trans[OF d1] by simp_all
  then show ?case by blast
next
  case (Write s v k)
  from write_deferred[OF Write.prems] obtain n1 st1 ss1
    where w: "write_sig n1 s v st = Some (Returned VUndef, st1)" and d1: "defers st st1 ss1"
      and "deferred st1" by blast
  from Write.IH[OF this(3)] obtain n2 r st' ss2
    where k: "exec n2 k st1 = Some (r, st')" and d2: "defers st1 st' ss2" by blast
  from write_sig_mono[OF w, of "max n1 n2"] exec_mono[OF k, of "max n1 n2"]
  have "exec (Suc (max n1 n2)) (Write s v k) st = Some (r, st')"
    by (simp del: write_sig.simps)
  with defers_trans[OF d1 d2] show ?case by blast
next
  case (Update s f k)
  from write_deferred[OF Update.prems] obtain n1 st1 ss1
    where w: "write_sig n1 s (f (sig_value (signals st s))) st = Some (Returned VUndef, st1)"
      and d1: "defers st st1 ss1" and "deferred st1" by blast
  from Update.IH[OF this(3)] obtain n2 r st' ss2
    where k: "exec n2 k st1 = Some (r, st')" and d2: "defers st1 st' ss2" by blast
  from write_sig_mono[OF w, of "max n1 n2"] exec_mono[OF k, of "max n1 n2"]
  have "exec (Suc (max n1 n2)) (Update s f k) st = Some (r, st')"
    by (simp del: write_sig.simps)
  with defers_trans[OF d1 d2] show ?case by blast
next
  case (Batch b k)
  let ?st1 = "st\<lparr>batchDepth := Suc (batchDepth st), pending := pending st, schedule := True\<rparr>"
  have "deferred ?st1" using Batch.prems by (simp add: deferred_def)
  from Batch.IH(1)[OF this] obtain n1 r1 st2 ss1
    where b: "exec n1 b ?st1 = Some (r1, st2)" and d1: "defers ?st1 st2 ss1" by blast
  let ?st3 = "st2\<lparr>schedule := schedule st, batchDepth := batchDepth st2 - 1\<rparr>"
  have bb: "batch (Suc n1) (TProg b) st = Some (r1, ?st3)"
    using b d1 Batch.prems by (auto simp: Let_def deferred_def defers_def)
  have d3: "defers st ?st3 ss1" using d1 Batch.prems by (auto simp: defers_def deferred_def)
  show ?case
  proof (cases "\<exists>err. r1 = Thrown err")
    case True
    with bb have "exec (Suc (Suc n1)) (Batch b k) st = Some (r1, ?st3)"
      by (auto simp del: batch.simps)
    with d3 show ?thesis by blast
  next
    case False
    from defers_deferred[OF d3 Batch.prems] Batch.IH(2) obtain n2 r st' ss2
      where k: "exec n2 k ?st3 = Some (r, st')" and d2: "defers ?st3 st' ss2" by blast
    from batch_mono[OF bb, of "max (Suc n1) n2"] exec_mono[OF k, of "max (Suc n1) n2"] False
    have "exec (Suc (max (Suc n1) n2)) (Batch b k) st = Some (r, st')"
      by (cases r1) (simp_all del: batch.simps)
    with defers_trans[OF d3 d2] show ?thesis by blast
  qed
next
  case (Untrack b k)
  let ?st1 = "st\<lparr>currentEffect := None\<rparr>"
  have "deferred ?st1" using Untrack.prems by (simp add: deferred_def)
  from Untrack.IH(1)[OF this] obtain n1 r1 st2 ss1
    where b: "exec n1 b ?st1 = Some (r1, st2)" and d1: "defers ?st1 st2 ss1" by blast
  let ?st3 = "st2\<lparr>currentEffect := currentEffect st\<rparr>"
  have d3: "defers st ?st3 ss1" using d1 by (auto simp: defers_def)
  show ?case
  proof (cases "\<exists>err. r1 = Thrown err")
    case True
    with b have "exec (Suc n1) (Untrack b k) st = Some (r1, ?st3)"
      by auto
    with d3 show ?thesis by blast
  next
    case False
    from defers_deferred[OF d3 Untrack.prems] Untrack.IH(2) obtain n2 r st' ss2
      where k: "exec n2 k ?st3 = Some (r, st')" and d2: "defers ?st3 st' ss2" by blast
    from exec_mono[OF b, of "max n1 n2"] exec_mono[OF k, of "max n1 n2"] False
    have "exec (Suc (max n1 n2)) (Untrack b k) st = Some (r, st')"
      by (cases r1) simp_all
    with defers_trans[OF d3 d2] show ?thesis by blast
  qed
next
  case (Load x k)
  from Load.IH[OF rangeI Load.prems] obtain n r st' ss
    where "exec n (k (vars st x)) st = Some (r, st')" "defers st st' ss" by blast
  then have "exec (Suc n) (Load x k) st = Some (r, st')" by simp
  with \<open>defers st st' ss\<close> show ?case by blast
next
  case (Store x v k)
  let ?st1 = "st\<lparr>vars := (vars st)(x := v)\<rparr>"
  have d1: "defers st ?st1 []" using Store.prems by (auto simp: defers_def deferred_def)
  from Store.IH[OF defers_deferred[OF d1 Store.prems]] obtain n r st' ss
    where "exec n k ?st1 = Some (r, st')" "defers ?st1 st' ss" by blast
  then have "exec (Suc n) (Store x v k) st = Some (r, st')" "defers st st' ([] @ ss)"
    using defers_trans[OF d1] by simp_all
  then show ?case by blast
qed

subsection \<open>Effects that write no signal\<close>

lemma calm_refl [simp]: "calm st st" by (simp add: calm_def)
lemma calm_trans: "calm a b \<Longrightarrow> calm b c \<Longrightarrow> calm a c" by (simp add: calm_def)
lemma calm_idle: "calm st st' \<Longrightarrow> idle st \<Longrightarrow> idle st'" by (simp add: calm_def idle_def)

lemma calm_read: "calm st (snd (read s st))"
  by (auto simp: calm_def read_signals split: option.splits)

lemma exec_quiet:
  "quiet p \<Longrightarrow> idle st \<Longrightarrow>
     \<exists>n r st'. exec n p st = Some (r, st') \<and> calm st st' \<and> (\<forall>c. r = ReturnedFn c \<longrightarrow> quiet c)"
proof (induction p arbitrary: st)
  case (Ret v)
  have "exec (Suc 0) (Ret v) st = Some (Returned v, st)" by simp
  then show ?case by (metis calm_refl outcome.distinct(1))
next
  case (RetFn c)
  have "exec (Suc 0) (RetFn c) st = Some (ReturnedFn c, st)" by simp
  with RetFn.prems show ?case by (metis calm_refl outcome.inject(2) quiet.simps(2))
next
  case (Throw v)
  have "exec (Suc 0) (Throw v) st = Some (Thrown v, st)" by simp
  then show ?case by (metis calm_refl outcome.distinct(5))
next
  case (Read s k)
  let ?st1 = "snd (read s st)"
  have c1: "calm st ?st1" by (rule calm_read)
  from Read.prems have "quiet (k (sig_value (signals st s)))" by simp
  from Read.IH[OF rangeI this calm_idle[OF c1 Read.prems(2)]] obtain n r st'
    where x: "exec n (k (sig_value (signals st s))) ?st1 = Some (r, st')" "calm ?st1 st'"
      "\<forall>c. r = ReturnedFn c \<longrightarrow> quiet c" by blast
  then have "exec (Suc n) (Read s k) st = Some (r, st')" by simp
  with x calm_trans[OF c1] show ?case by blast
next
  case (Write s v k)
  then show ?case by simp
next
  case (Update s f k)
  then show ?case by simp
next
  case (Batch b k)
  let ?st1 = "st\<lparr>batchDepth := Suc (batchDepth st),
                   pending := (if batchDepth st = 0 then Some [] else pending st),
                   schedule := True\<rparr>"
  have "idle ?st1" by (simp add: idle_def)
  from Batch.IH(1)[OF _ this] Batch.prems obtain n1 r1 st2
    where b: "exec n1 b ?st1 = Some (r1, st2)" and c1: "calm ?st1 st2"
      and q1: "\<forall>c. r1 = ReturnedFn c \<longrightarrow> quiet c" by auto
  let ?st3 = "st2\<lparr>schedule := schedule st, batchDepth := batchDepth st2 - 1\<rparr>"
  let ?st4 = "if batchDepth st = 0 then ?st3\<lparr>pending := None\<rparr> else ?st3"
  have bb: "batch (Suc (Suc n1)) (TProg b) st = Some (r1, ?st4)"
    using exec_mono[OF b, of "Suc n1"] c1 by (auto simp: Let_def calm_def)
  have c4: "calm st ?st4" using c1 Batch.prems(2) by (auto simp: calm_def idle_def)
  show ?case
  proof (cases "\<exists>err. r1 = Thrown err")
    case True
    with bb have "exec (Suc (Suc (Suc n1))) (Batch b k) st = Some (r1, ?st4)"
      by (auto simp del: batch.simps)
    with c4 True show ?thesis by blast
  next
    case False
    from Batch.IH(2)[OF _ calm_idle[OF c4 Batch.prems(2)]] Batch.prems obtain n2 r st'
      where k: "exec n2 k ?st4 = Some (r, st')" and c2: "calm ?st4 st'"
        and q2: "\<forall>c. r = ReturnedFn c \<longrightarrow> quiet c" by auto
    from batch_mono[OF bb, of "max (Suc (Suc n1)) n2"] exec_mono[OF k, of "max (Suc (Suc n1)) n2"] False
    have "exec (Suc (max (Suc (Suc n1)) n2)) (Batch b k) st = Some (r, st')"
      by (cases r1) (simp_all del: batch.simps)
    with calm_trans[OF c4 c2] q2 show ?thesis by blast
  qed
next
  case (Untrack b k)
  let ?st1 = "st\<lparr>currentEffect := None\<rparr>"
  have "idle ?st1" using Untrack.prems by (simp add: idle_def)
  from Untrack.IH(1)[OF _ this] Untrack.prems obtain n1 r1 st2
    where b: "exec n1 b ?st1 = Some (r1, st2)" and c1: "calm ?st1 st2" by auto
  let ?st3 = "st2\<lparr>currentEffect := currentEffect st\<rparr>"
  have c3: "calm st ?st3" using c1 by (auto simp: calm_def)
  show ?case
  proof (cases "\<exists>err. r1 = Thrown err")
    case True
    with b have "exec (Suc n1) (Untrack b k) st = Some (r1, ?st3)"
      by auto
    with c3 True show ?thesis by blast
  next
    case False
    from Untrack.IH(2)[OF _ calm_idle[OF c3 Untrack.prems(2)]] Untrack.prems obtain n2 r st'
      where k: "exec n2 k ?st3 = Some (r, st')" and c2: "calm ?st3 st'"
        and q2: "\<forall>c. r = ReturnedFn c \<longrightarrow> quiet c" by auto
    from exec_mono[OF b, of "max n1 n2"] exec_mono[OF k, of "max n1 n2"] False
    have "exec (Suc (max n1 n2)) (Untrack b k) st = Some (r, st')"
      by (cases r1) simp_all
    with calm_trans[OF c3 c2] q2 show ?thesis by blast
  qed
next
  case (Load x k)
  from Load.prems have "quiet (k (vars st x))" by simp
  from Load.IH[OF rangeI this Load.prems(2)] obtain n r st'
    where x: "exec n (k (vars st x)) st = Some (r, st')" "calm st st'"
      "\<forall>c. r = ReturnedFn c \<longrightarrow> quiet c" by blast
  then have "exec (Suc n) (Load x k) st = Some (r, st')" by simp
  with x show ?case by blast
next
  case (Store x v k)
  let ?st1 = "st\<lparr>vars := (vars st)(x := v)\<rparr>"
  have c1: "calm st ?st1" by (auto simp: calm_def)
  from Store.IH[OF _ calm_idle[OF c1 Store.prems(2)]] Store.prems obtain n r st'
    where x: "exec n k ?st1 = Some (r, st')" "calm ?st1 st'"
      "\<forall>c. r = ReturnedFn c \<longrightarrow> quiet c" by auto
  then have "exec (Suc n) (Store x v k) st = Some (r, st')" by simp
  with x calm_trans[OF c1] show ?case by blast
qed


lemma forEach_quiet:
  "list_all quiet (cleanup (effects st e)) \<Longrightarrow> idle st \<Longrightarrow>
     \<exists>n r st'. forEach n e i len st = Some (r, st') \<and> calm st st'"
proof (induction "len - i" arbitrary: i st)
  case 0
  then have "forEach (Suc 0) e i len st = Some (Returned VUndef, st)" by simp
  then show ?case by (metis calm_refl)
next
  case (Suc d)
  then have il: "i < len" and d: "d = len - Suc i" by auto
  show ?case
  proof (cases "i < length (cleanup (effects st e))")
    case False
    from Suc.hyps(1)[OF d Suc.prems] obtain n r st'
      where x: "forEach n e (Suc i) len st = Some (r, st')" "calm st st'" by blast
    with il False have "forEach (Suc n) e i len st = Some (r, st')"
      by (simp del: forEach.simps add: forEach.simps(2)[of n e i])
    with x show ?thesis by blast
  next
    case True
    with Suc.prems(1) have "quiet (cleanup (effects st e) ! i)"
      by (simp add: list_all_length)
    from exec_quiet[OF this Suc.prems(2)] obtain n1 r1 st1
      where c: "exec n1 (cleanup (effects st e) ! i) st = Some (r1, st1)" and c1: "calm st st1"
      by blast
    show ?thesis
    proof (cases "\<exists>err. r1 = Thrown err")
      case t: True
      with c il True have "forEach (Suc n1) e i len st = Some (r1, st1)"
        by (auto simp del: forEach.simps simp add: forEach.simps(2)[of n1 e i])
      with c1 show ?thesis by blast
    next
      case f: False
      have "list_all quiet (cleanup (effects st1 e))" using Suc.prems(1) c1 by (simp add: calm_def)
      from Suc.hyps(1)[OF d this calm_idle[OF c1 Suc.prems(2)]] obtain n2 r st'
        where x: "forEach n2 e (Suc i) len st1 = Some (r, st')" "calm st1 st'" by blast
      from exec_mono[OF c, of "max n1 n2"] forEach_mono[OF x(1), of "max n1 n2"] f il True
      have "forEach (Suc (max n1 n2)) e i len st = Some (r, st')"
        by (cases r1) (simp_all del: forEach.simps add: forEach.simps(2)[of "max n1 n2" e i])
      with calm_trans[OF c1 x(2)] show ?thesis by blast
    qed
  qed
qed

lemma runs_of_simps [simp]:
  "runs_of [] = []" "runs_of (Ran e # tr) = e # runs_of tr"
  "runs_of (Scheduled e # tr) = runs_of tr" "runs_of (Logged v # tr) = runs_of tr"
  "runs_of (tr @ tr') = runs_of tr @ runs_of tr'"
  by (simp_all add: runs_of_def)

lemma scheduled_of_simps [simp]:
  "scheduled_of [] = []" "scheduled_of (Ran e # tr) = scheduled_of tr"
  "scheduled_of (Scheduled e # tr) = e # scheduled_of tr" "scheduled_of (Logged v # tr) = scheduled_of tr"
  "scheduled_of (tr @ tr') = scheduled_of tr @ scheduled_of tr'"
  by (simp_all add: scheduled_of_def)

lemma effect_quiet:
  assumes q: "quiet_effect (effects st e)" and i: "idle st"
  shows "\<exists>n st' tr. effect n e st = Some st' \<and> settled st st' tr
           \<and> runs_of tr = (if disposed (effects st e) then [] else [e])"
proof (cases "disposed (effects st e)")
  case True
  then have "effect (Suc 0) e st = Some st" by simp
  moreover have "settled st st []" using q by (simp add: settled_def)
  moreover have "runs_of [] = (if disposed (effects st e) then [] else [e])" using True by simp
  ultimately show ?thesis by blast
next
  case False
  let ?st1 = "emit (Ran e) (st\<lparr>effectStack := effectStack st @ [e], currentEffect := Some e\<rparr>)"
  have i1: "idle ?st1" using i by (simp add: idle_def)
  have "list_all quiet (cleanup (effects ?st1 e))" using q by (simp add: quiet_effect_def)
  from forEach_quiet[OF this i1] obtain n1 r1 st2
    where fe: "forEach n1 e 0 (length (cleanup (effects st e))) ?st1 = Some (r1, st2)"
      and c1: "calm ?st1 st2" by blast
  show ?thesis
  proof (cases "\<exists>err. r1 = Thrown err")
    case True
    then obtain err where r1: "r1 = Thrown err" by blast
    let ?st' = "effect_exit (emit (Logged err) st2)"
    have "effect (Suc n1) e st = Some ?st'" using False fe r1 by simp
    moreover have "settled st ?st' [Ran e, Logged err]"
      using c1 q by (auto simp: settled_def calm_def)
    moreover have "runs_of [Ran e, Logged err] = (if disposed (effects st e) then [] else [e])" using False by simp
      ultimately show ?thesis by blast
  next
    case nt: False
    let ?st3 = "upd_effect e (\<lambda>r. r\<lparr>cleanup := []\<rparr>) st2"
    have e2: "effects st2 = effects st" using c1 by (simp add: calm_def)
    have i3: "idle ?st3" using calm_idle[OF c1 i1] by (simp add: idle_def)
    have "quiet (fn (effects st2 e))" using q e2 by (simp add: quiet_effect_def)
    from exec_quiet[OF this i3] obtain n2 r2 st4
      where ex: "exec n2 (fn (effects st2 e)) ?st3 = Some (r2, st4)" and c2: "calm ?st3 st4"
        and qr: "\<forall>c. r2 = ReturnedFn c \<longrightarrow> quiet c" by blast
    have e4: "effects st4 = (effects st)(e := (effects st e)\<lparr>cleanup := []\<rparr>)"
      using c2 e2 by (simp add: calm_def)
    let ?n = "max n1 n2"
    note fe' = forEach_mono[OF fe, of ?n] and ex' = exec_mono[OF ex, of ?n]
    show ?thesis
    proof (cases r2)
      case (Returned v)
      let ?st' = "effect_exit st4"
      have "effect (Suc ?n) e st = Some ?st'"
        using False fe' ex' nt Returned by (cases r1) simp_all
      moreover have "settled st ?st' [Ran e]"
        using c1 c2 q e4 by (auto simp: settled_def calm_def quiet_effect_def)
      moreover have "runs_of [Ran e] = (if disposed (effects st e) then [] else [e])" using False by simp
      ultimately show ?thesis by blast
    next
      case (ReturnedFn c)
      let ?st' = "effect_exit (upd_effect e (\<lambda>r. r\<lparr>cleanup := cleanup r @ [c]\<rparr>) st4)"
      have "effect (Suc ?n) e st = Some ?st'"
        using False fe' ex' nt ReturnedFn by (cases r1) simp_all
      moreover have "settled st ?st' [Ran e]"
        using c1 c2 q e4 qr ReturnedFn by (auto simp: settled_def calm_def quiet_effect_def)
      moreover have "runs_of [Ran e] = (if disposed (effects st e) then [] else [e])" using False by simp
      ultimately show ?thesis by blast
    next
      case (Thrown err)
      let ?st' = "effect_exit (emit (Logged err) st4)"
      have "effect (Suc ?n) e st = Some ?st'"
        using False fe' ex' nt Thrown by (cases r1) simp_all
      moreover have "settled st ?st' [Ran e, Logged err]"
        using c1 c2 q e4 by (auto simp: settled_def calm_def quiet_effect_def)
      moreover have "runs_of [Ran e, Logged err] = (if disposed (effects st e) then [] else [e])" using False by simp
      ultimately show ?thesis by blast
    qed
  qed
qed

lemma settled_trans: "settled a b tr \<Longrightarrow> settled b c tr' \<Longrightarrow> settled a c (tr @ tr')"
  by (simp add: settled_def)

lemma settled_idle: "settled st st' tr \<Longrightarrow> idle st \<Longrightarrow> idle st'"
  by (simp add: settled_def idle_def)

lemma drain_quiet:
  assumes "\<forall>e\<in>set es. quiet_effect (effects st e)" "idle st"
  shows "\<exists>n st' tr. drain n es st = Some st' \<and> settled st st' tr
           \<and> runs_of tr = filter (\<lambda>e. \<not> disposed (effects st e)) es"
  using assms
proof (induction es arbitrary: st)
  case Nil
  then have "drain (Suc 0) [] st = Some st" "settled st st []"
    "runs_of [] = filter (\<lambda>e. \<not> disposed (effects st e)) []"
    by (simp_all add: settled_def)
  then show ?case by blast
next
  case (Cons e es)
  from Cons.prems(1) have "quiet_effect (effects st e)" by simp
  from effect_quiet[OF this Cons.prems(2)] obtain n1 st1 tr1
    where ef: "effect n1 e st = Some st1" and s1: "settled st st1 tr1"
      and r1: "runs_of tr1 = (if disposed (effects st e) then [] else [e])" by blast
  have "\<forall>e\<in>set es. quiet_effect (effects st1 e)" using s1 Cons.prems(1) by (simp add: settled_def)
  from Cons.IH[OF this settled_idle[OF s1 Cons.prems(2)]] obtain n2 st' tr2
    where dr: "drain n2 es st1 = Some st'" and s2: "settled st1 st' tr2"
      and r2: "runs_of tr2 = filter (\<lambda>e. \<not> disposed (effects st1 e)) es" by blast
  from effect_mono[OF ef, of "max n1 n2"] drain_mono[OF dr, of "max n1 n2"]
  have "drain (Suc (max n1 n2)) (e # es) st = Some st'"
    by (simp del: effect.simps)
  moreover have "runs_of (tr1 @ tr2) = filter (\<lambda>e. \<not> disposed (effects st e)) (e # es)"
    using r1 r2 s1 by (simp add: settled_def)
  ultimately show ?case using settled_trans[OF s1 s2] by blast
qed

subsection \<open>The pending set\<close>

lemma firsts_set [simp]: "set (firsts xs) = set xs"
  by (induction xs) auto

lemma firsts_distinct [simp]: "distinct (firsts xs)"
  by (induction xs) auto

lemma foldl_set_add: "foldl set_add ps ss = ps @ filter (\<lambda>x. x \<notin> set ps) (firsts ss)"
proof (induction ss arbitrary: ps)
  case Nil
  then show ?case by simp
next
  case (Cons x xs)
  show ?case
  proof (cases "x \<in> set ps")
    case True
    have "filter (\<lambda>y. y \<notin> set ps) (filter (\<lambda>y. y \<noteq> x) (firsts xs)) = filter (\<lambda>y. y \<notin> set ps) (firsts xs)"
      using True by (auto intro: filter_cong)
    with True Cons.IH[of ps] show ?thesis by (simp add: set_add_def)
  next
    case False
    have "filter (\<lambda>y. y \<notin> set ps) (filter (\<lambda>y. y \<noteq> x) (firsts xs)) = filter (\<lambda>y. y \<noteq> x \<and> y \<notin> set ps) (firsts xs)"
      by (auto intro: filter_cong)
    with False Cons.IH[of "ps @ [x]"] show ?thesis by (simp add: set_add_def)
  qed
qed

lemma pending_set_is_firsts: "foldl set_add [] ss = firsts ss"
  by (simp add: foldl_set_add)

lemma count_distinct: "distinct xs \<Longrightarrow> x \<in> set xs \<Longrightarrow> count_list xs x = 1"
  by (induction xs) auto

lemma count_absent: "x \<notin> set xs \<Longrightarrow> count_list xs x = 0"
  by (induction xs) auto

subsection \<open>Sequencing\<close>

lemma exec_bind:
  "exec n p st = Some (Returned r, st1) \<Longrightarrow> exec m (f r) st1 = Some res
   \<Longrightarrow> exec (n + m) (bind p f) st = Some res"
proof (induction n arbitrary: p st)
  case 0
  then show ?case by simp
next
  case (Suc n)
  show ?case
  proof (cases p)
    case (Ret v)
    with Suc.prems show ?thesis
      by (auto intro: exec_mono)
  next
    case (Write s v k)
    with Suc.prems obtain r' st' where w: "write_sig n s v st = Some (r', st')"
      and nt: "\<forall>err. r' \<noteq> Thrown err" and k: "exec n k st' = Some (Returned r, st1)"
      by (auto simp del: write_sig.simps split: option.splits outcome.splits prod.splits)
    from write_sig_mono[OF w, of "n + m"] have "write_sig (n + m) s v st = Some (r', st')" by simp
    with Suc.IH[OF k Suc.prems(2)] nt Write show ?thesis
      by (cases r') (auto simp del: write_sig.simps)
  next
    case (Update s g k)
    with Suc.prems obtain r' st' where w: "write_sig n s (g (sig_value (signals st s))) st = Some (r', st')"
      and nt: "\<forall>err. r' \<noteq> Thrown err" and k: "exec n k st' = Some (Returned r, st1)"
      by (auto simp del: write_sig.simps split: option.splits outcome.splits prod.splits)
    from write_sig_mono[OF w, of "n + m"]
    have "write_sig (n + m) s (g (sig_value (signals st s))) st = Some (r', st')" by simp
    with Suc.IH[OF k Suc.prems(2)] nt Update show ?thesis
      by (cases r') (auto simp del: write_sig.simps)
  next
    case (Batch b k)
    with Suc.prems obtain r' st' where w: "batch n (TProg b) st = Some (r', st')"
      and nt: "\<forall>err. r' \<noteq> Thrown err" and k: "exec n k st' = Some (Returned r, st1)"
      by (auto simp del: batch.simps split: option.splits outcome.splits prod.splits)
    from batch_mono[OF w, of "n + m"] have "batch (n + m) (TProg b) st = Some (r', st')" by simp
    with Suc.IH[OF k Suc.prems(2)] nt Batch show ?thesis
      by (cases r') (auto simp del: batch.simps)
  next
    case (Untrack b k)
    with Suc.prems obtain r' st' where w: "exec n b (st\<lparr>currentEffect := None\<rparr>) = Some (r', st')"
      and nt: "\<forall>err. r' \<noteq> Thrown err"
      and k: "exec n k (st'\<lparr>currentEffect := currentEffect st\<rparr>) = Some (Returned r, st1)"
      by (auto split: option.splits outcome.splits prod.splits)
    from exec_mono[OF w, of "n + m"]
    have "exec (n + m) b (st\<lparr>currentEffect := None\<rparr>) = Some (r', st')" by simp
    with Suc.IH[OF k Suc.prems(2)] nt Untrack show ?thesis
      by (cases r') auto
  qed (use Suc in \<open>auto\<close>)
qed

subsection \<open>Who writes a signal\<close>

lemma kept_refl: "others_outside out me st \<Longrightarrow> kept out me b st st"
  by (simp add: kept_def)

lemma kept_trans:
  "kept out me b1 st st1 \<Longrightarrow> kept out me b2 st1 st2 \<Longrightarrow> (b \<Longrightarrow> b1 \<and> b2) \<Longrightarrow> kept out me b st st2"
  by (auto simp: kept_def)

lemma kept_outside: "kept out me b st st' \<Longrightarrow> others_outside out me st'"
  by (simp add: kept_def)

lemma runs_count_simps [simp]:
  "runs_count e (emit (Ran e') st) = (if e' = e then Suc (runs_count e st) else runs_count e st)"
  "runs_count e (emit (Scheduled e') st) = runs_count e st"
  "runs_count e (emit (Logged v) st) = runs_count e st"
  "runs_count e (effect_exit st) = runs_count e st"
  "runs_count e (upd_effect x f st) = runs_count e st"
  "runs_count e (upd_signal s g st) = runs_count e st"
  "runs_count e (snd (read s st)) = runs_count e st"
  by (simp_all add: runs_count_def emit_def effect_exit_def Let_def upd_effect_def upd_signal_def read_def split: option.splits)

lemma others_outside_simps [simp]:
  "others_outside out me (emit ev st) = others_outside out me st"
  "others_outside out me (effect_exit st) = others_outside out me st"
  "others_outside out me (upd_signal s g st) = others_outside out me st"
  "others_outside out me (snd (read s st)) = others_outside out me st"
  by (simp_all add: others_outside_def)

lemma memo_only_all:
  shows "\<forall>p st r st'. exec n p st = Some (r, st') \<longrightarrow> others_outside out me st
           \<longrightarrow> kept out me (never_sets out p) st st'
               \<and> (never_sets out p \<longrightarrow> (\<forall>c. r = ReturnedFn c \<longrightarrow> never_sets out c))"
    and "\<forall>s v st r st'. write_sig n s v st = Some (r, st') \<longrightarrow> others_outside out me st
           \<longrightarrow> kept out me (s \<noteq> out) st st'"
    and "\<forall>s es st r st'. notify n s es st = Some (r, st') \<longrightarrow> others_outside out me st
           \<longrightarrow> kept out me True st st'"
    and "\<forall>e st st'. effect n e st = Some st' \<longrightarrow> others_outside out me st
           \<longrightarrow> kept out me True st st'"
    and "\<forall>e i len st r st'. forEach n e i len st = Some (r, st') \<longrightarrow> others_outside out me st
           \<longrightarrow> kept out me (e \<noteq> me) st st'"
    and "\<forall>b st r st'. batch n (TProg b) st = Some (r, st') \<longrightarrow> others_outside out me st
           \<longrightarrow> kept out me (never_sets out b) st st'"
    and "\<forall>es st st'. drain n es st = Some st' \<longrightarrow> others_outside out me st
           \<longrightarrow> kept out me True st st'"
proof (induction n)
  case 0
  { case 1 then show ?case by simp }
  { case 2 then show ?case by simp }
  { case 3 then show ?case by simp }
  { case 4 then show ?case by simp }
  { case 5 then show ?case by simp }
  { case 6 then show ?case by simp }
  { case 7 then show ?case by simp }
next
  case (Suc n)
  note e = Suc.IH(1)[rule_format] and w = Suc.IH(2)[rule_format] and no = Suc.IH(3)[rule_format]
    and ef = Suc.IH(4)[rule_format] and fe = Suc.IH(5)[rule_format] and ba = Suc.IH(6)[rule_format]
    and dr = Suc.IH(7)[rule_format]
  { case 1 show ?case
    proof (intro allI impI)
      fix p st r st' assume a: "exec (Suc n) p st = Some (r, st')" and o: "others_outside out me st"
      show "kept out me (never_sets out p) st st'
               \<and> (never_sets out p \<longrightarrow> (\<forall>c. r = ReturnedFn c \<longrightarrow> never_sets out c))"
      proof (cases p)
        case (Ret v)
        with a o show ?thesis by (auto intro: kept_refl)
      next
        case (RetFn c)
        with a o show ?thesis by (auto intro: kept_refl)
      next
        case (Throw v)
        with a o show ?thesis by (auto intro: kept_refl)
      next
        case (Read s k)
        with a have x: "exec n (k (sig_value (signals st s))) (snd (read s st)) = Some (r, st')"
          by simp
        from e[OF x] o have "kept out me (never_sets out (k (sig_value (signals st s)))) (snd (read s st)) st'"
          and "never_sets out (k (sig_value (signals st s))) \<longrightarrow> (\<forall>c. r = ReturnedFn c \<longrightarrow> never_sets out c)"
          by simp_all
        with Read show ?thesis
          by (auto simp: kept_def read_signals split: option.splits)
      next
        case (Write s v k)
        with a obtain r1 st1 where w1: "write_sig n s v st = Some (r1, st1)"
          and k1: "(\<exists>err. r1 = Thrown err \<and> r = r1 \<and> st' = st1) \<or> exec n k st1 = Some (r, st')"
          by (auto simp del: write_sig.simps split: option.splits outcome.splits prod.splits)
        from w[OF w1 o] have k0: "kept out me (s \<noteq> out) st st1" .
        from k1 show ?thesis
        proof
          assume "\<exists>err. r1 = Thrown err \<and> r = r1 \<and> st' = st1"
          with k0 Write show ?thesis by (auto simp: kept_def)
        next
          assume x: "exec n k st1 = Some (r, st')"
          from e[OF x kept_outside[OF k0]] k0 Write show ?thesis
            by (auto simp: kept_def)
        qed
      next
        case (Update s f k)
        with a obtain r1 st1 where w1: "write_sig n s (f (sig_value (signals st s))) st = Some (r1, st1)"
          and k1: "(\<exists>err. r1 = Thrown err \<and> r = r1 \<and> st' = st1) \<or> exec n k st1 = Some (r, st')"
          by (auto simp del: write_sig.simps split: option.splits outcome.splits prod.splits)
        from w[OF w1 o] have k0: "kept out me (s \<noteq> out) st st1" .
        from k1 show ?thesis
        proof
          assume "\<exists>err. r1 = Thrown err \<and> r = r1 \<and> st' = st1"
          with k0 Update show ?thesis by (auto simp: kept_def)
        next
          assume x: "exec n k st1 = Some (r, st')"
          from e[OF x kept_outside[OF k0]] k0 Update show ?thesis
            by (auto simp: kept_def)
        qed
      next
        case (Batch b k)
        with a obtain r1 st1 where w1: "batch n (TProg b) st = Some (r1, st1)"
          and k1: "(\<exists>err. r1 = Thrown err \<and> r = r1 \<and> st' = st1) \<or> exec n k st1 = Some (r, st')"
          by (auto simp del: batch.simps split: option.splits outcome.splits prod.splits)
        from ba[OF w1 o] have k0: "kept out me (never_sets out b) st st1" .
        from k1 show ?thesis
        proof
          assume "\<exists>err. r1 = Thrown err \<and> r = r1 \<and> st' = st1"
          with k0 Batch show ?thesis by (auto simp: kept_def)
        next
          assume x: "exec n k st1 = Some (r, st')"
          from e[OF x kept_outside[OF k0]] k0 Batch show ?thesis
            by (auto simp: kept_def)
        qed
      next
        case (Untrack b k)
        let ?s0 = "st\<lparr>currentEffect := None\<rparr>"
        have o0: "others_outside out me ?s0" using o by (simp add: others_outside_def)
        from Untrack a obtain r1 st1 where w1: "exec n b ?s0 = Some (r1, st1)"
          and k1: "(\<exists>err. r1 = Thrown err \<and> r = r1 \<and> st' = st1\<lparr>currentEffect := currentEffect st\<rparr>)
                   \<or> exec n k (st1\<lparr>currentEffect := currentEffect st\<rparr>) = Some (r, st')"
          by (auto split: option.splits outcome.splits prod.splits)
        from e[OF w1 o0] have k0: "kept out me (never_sets out b) ?s0 st1" by simp
        let ?s1 = "st1\<lparr>currentEffect := currentEffect st\<rparr>"
        have k0': "kept out me (never_sets out b) st ?s1"
          using k0 by (simp add: kept_def others_outside_def runs_count_def)
        from k1 show ?thesis
        proof
          assume "\<exists>err. r1 = Thrown err \<and> r = r1 \<and> st' = ?s1"
          with k0' Untrack show ?thesis by (auto simp: kept_def)
        next
          assume x: "exec n k ?s1 = Some (r, st')"
          from e[OF x kept_outside[OF k0']] k0' Untrack show ?thesis
            by (auto simp: kept_def)
        qed
      next
        case (Load x k)
        with a have x: "exec n (k (vars st x)) st = Some (r, st')" by simp
        from e[OF x o] Load show ?thesis by (auto simp: kept_def)
      next
        case (Store x v k)
        let ?s0 = "st\<lparr>vars := (vars st)(x := v)\<rparr>"
        have o0: "others_outside out me ?s0" using o by (simp add: others_outside_def)
        from Store a have x: "exec n k ?s0 = Some (r, st')" by simp
        from e[OF x o0] Store show ?thesis by (auto simp: kept_def runs_count_def)
      qed
    qed }
  { case 2 show ?case
    proof (intro allI impI)
      fix s v st r st' assume a: "write_sig (Suc n) s v st = Some (r, st')" and o: "others_outside out me st"
      show "kept out me (s \<noteq> out) st st'"
      proof (cases "sig_value (signals st s) = v")
        case True
        with a o show ?thesis by (auto intro: kept_refl)
      next
        case False
        let ?s0 = "upd_signal s (\<lambda>g. g\<lparr>sig_value := v\<rparr>) st"
        from False a have x: "notify n s (subscribers (signals st s)) ?s0 = Some (r, st')" by simp
        from no[OF x] o have "kept out me True ?s0 st'" by simp
        then show ?thesis by (auto simp: kept_def)
      qed
    qed }
  { case 3 show ?case
    proof (intro allI impI)
      fix s es st r st' assume a: "notify (Suc n) s es st = Some (r, st')" and o: "others_outside out me st"
      show "kept out me True st st'"
      proof (cases es)
        case Nil
        with a o show ?thesis by (auto intro: kept_refl)
      next
        case (Cons x xs)
        show ?thesis
        proof (cases "x \<in> set (subscribers (signals st s))")
          case False
          with a Cons have "notify n s xs st = Some (r, st')" by simp
          from no[OF this o] show ?thesis .
        next
          case True
          show ?thesis
          proof (cases "schedule st")
            case s: True
            show ?thesis
            proof (cases "pending st")
              case None
              with a Cons True s o show ?thesis by (auto intro: kept_refl)
            next
              case (Some ps)
              let ?s0 = "emit (Scheduled x) (st\<lparr>pending := Some (set_add ps x)\<rparr>)"
              from a Cons True s Some have x: "notify n s xs ?s0 = Some (r, st')" by simp
              have "others_outside out me ?s0" using o by (simp add: others_outside_def)
              from no[OF x this] show ?thesis
                by (auto simp: kept_def runs_count_def emit_def)
            qed
          next
            case s: False
            with a Cons True obtain st1 where x1: "effect n x st = Some st1"
              and x2: "notify n s xs st1 = Some (r, st')"
              by (auto simp del: effect.simps split: option.splits)
            from ef[OF x1 o] have k1: "kept out me True st st1" .
            from no[OF x2 kept_outside[OF k1]] have "kept out me True st1 st'" .
            with k1 show ?thesis by (rule kept_trans) simp
          qed
        qed
      qed
    qed }
  { case 4 show ?case
    proof (intro allI impI)
      fix x st st' assume a: "effect (Suc n) x st = Some st'" and o: "others_outside out me st"
      show "kept out me True st st'"
      proof (cases "disposed (effects st x)")
        case True
        with a o show ?thesis by (auto intro: kept_refl)
      next
        case False
        let ?s0 = "emit (Ran x) (st\<lparr>effectStack := effectStack st @ [x], currentEffect := Some x\<rparr>)"
        have o0: "others_outside out me ?s0" using o by (simp add: others_outside_def)
        have c0: "runs_count me ?s0 = (if x = me then Suc (runs_count me st) else runs_count me st)"
          by (simp add: runs_count_def emit_def)
        have v0: "signals ?s0 = signals st" by (simp add: emit_def)
        have fin: "kept out me True st st'" if "kept out me (x \<noteq> me) ?s0 st'"
          using that c0 v0 by (auto simp: kept_def split: if_splits)
        from False a obtain r1 st1 where f1: "forEach n x 0 (length (cleanup (effects st x))) ?s0 = Some (r1, st1)"
          by (auto simp del: forEach.simps split: option.splits)
        from fe[OF _ o0, of x 0 "length (cleanup (effects ?s0 x))"] f1
        have k1: "kept out me (x \<noteq> me) ?s0 st1" by simp
        note o1 = kept_outside[OF k1]
        show ?thesis
        proof (cases "\<exists>err. r1 = Thrown err")
          case True
          with False a f1 obtain err where "st' = effect_exit (emit (Logged err) st1)"
            by (auto simp del: forEach.simps)
          with k1 have "kept out me (x \<noteq> me) ?s0 st'"
            by (simp add: kept_def)
          then show ?thesis by (rule fin)
        next
          case nt: False
          let ?s2 = "upd_effect x (\<lambda>r. r\<lparr>cleanup := []\<rparr>) st1"
          have o2: "others_outside out me ?s2" using o1
            by (auto simp: others_outside_def upd_effect_def outsider_def)
          have k2: "kept out me (x \<noteq> me) ?s0 ?s2" using k1 o2 by (simp add: kept_def)
          from False a f1 nt obtain r2 st2 where x2: "exec n (fn (effects st1 x)) ?s2 = Some (r2, st2)"
            by (cases r1) (auto simp del: forEach.simps split: option.splits)
          from e[OF x2 o2] have k3: "kept out me (never_sets out (fn (effects st1 x))) ?s2 st2"
            and q3: "never_sets out (fn (effects st1 x)) \<longrightarrow> (\<forall>c. r2 = ReturnedFn c \<longrightarrow> never_sets out c)"
            by simp_all
          have nf: "x \<noteq> me \<Longrightarrow> never_sets out (fn (effects st1 x))"
            using o1 by (simp add: others_outside_def outsider_def)
          from nf have "x \<noteq> me \<Longrightarrow> x \<noteq> me \<and> never_sets out (fn (effects st1 x))" by simp
          with k2 k3 have k4: "kept out me (x \<noteq> me) ?s0 st2"
            by (rule kept_trans)
          have "kept out me (x \<noteq> me) ?s0 st'"
          proof (cases r2)
            case (Returned v)
            with False a f1 nt x2 have "st' = effect_exit st2"
              by (cases r1) (auto simp del: forEach.simps)
            with k4 show ?thesis by (simp add: kept_def)
          next
            case (ReturnedFn c)
            with False a f1 nt x2 have s: "st' = effect_exit (upd_effect x (\<lambda>r. r\<lparr>cleanup := cleanup r @ [c]\<rparr>) st2)"
              by (cases r1) (auto simp del: forEach.simps)
            have "x \<noteq> me \<Longrightarrow> never_sets out c" using nf q3 ReturnedFn by simp
            with kept_outside[OF k4]
            have "others_outside out me (upd_effect x (\<lambda>r. r\<lparr>cleanup := cleanup r @ [c]\<rparr>) st2)"
              by (auto simp: others_outside_def upd_effect_def outsider_def)
            with k4 s show ?thesis by (simp add: kept_def)
          next
            case (Thrown err)
            with False a f1 nt x2 have "st' = effect_exit (emit (Logged err) st2)"
              by (cases r1) (auto simp del: forEach.simps)
            with k4 show ?thesis by (simp add: kept_def)
          qed
          then show ?thesis by (rule fin)
        qed
      qed
    qed }
  { case 5 show ?case
    proof (intro allI impI)
      fix x i len st r st' assume a: "forEach (Suc n) x i len st = Some (r, st')" and o: "others_outside out me st"
      show "kept out me (x \<noteq> me) st st'"
      proof (cases "i < len")
        case False
        with a o show ?thesis
          by (subst (asm) forEach.simps(2)) (auto intro: kept_refl)
      next
        case il: True
        show ?thesis
        proof (cases "i < length (cleanup (effects st x))")
          case False
          with a il have "forEach n x (Suc i) len st = Some (r, st')"
            by (subst (asm) forEach.simps(2)) simp
          from fe[OF this o] show ?thesis .
        next
          case True
          with a il obtain r1 st1 where x1: "exec n (cleanup (effects st x) ! i) st = Some (r1, st1)"
            and x2: "(\<exists>err. r1 = Thrown err \<and> r = r1 \<and> st' = st1) \<or> forEach n x (Suc i) len st1 = Some (r, st')"
            by (subst (asm) forEach.simps(2))
               (auto simp del: forEach.simps split: option.splits outcome.splits prod.splits)
          have nc: "x \<noteq> me \<Longrightarrow> never_sets out (cleanup (effects st x) ! i)"
            using o True by (simp add: others_outside_def outsider_def list_all_length)
          from e[OF x1 o] have "kept out me (never_sets out (cleanup (effects st x) ! i)) st st1" by simp
          with nc have k1: "kept out me (x \<noteq> me) st st1" by (auto simp: kept_def)
          from x2 show ?thesis
          proof
            assume "\<exists>err. r1 = Thrown err \<and> r = r1 \<and> st' = st1"
            with k1 show ?thesis by auto
          next
            assume "forEach n x (Suc i) len st1 = Some (r, st')"
            from fe[OF this kept_outside[OF k1]] have "kept out me (x \<noteq> me) st1 st'" .
            with k1 show ?thesis by (rule kept_trans) simp
          qed
        qed
      qed
    qed }
  { case 6 show ?case
    proof (intro allI impI)
      fix b st r st' assume a: "batch (Suc n) (TProg b) st = Some (r, st')" and o: "others_outside out me st"
      let ?s1 = "st\<lparr>batchDepth := Suc (batchDepth st),
                    pending := (if batchDepth st = 0 then Some [] else pending st),
                    schedule := True\<rparr>"
      have o1: "others_outside out me ?s1" using o by (simp add: others_outside_def)
      from a obtain r2 st2 where x: "exec n b ?s1 = Some (r2, st2)"
        by (auto simp: Let_def simp del: drain.simps split: option.splits)
      from e[OF x o1] have "kept out me (never_sets out b) ?s1 st2" by simp
      then have k2: "kept out me (never_sets out b) st st2"
        by (simp add: kept_def runs_count_def)
      let ?s3 = "st2\<lparr>schedule := schedule st, batchDepth := batchDepth st2 - 1\<rparr>"
      have k3: "kept out me (never_sets out b) st ?s3"
        using k2 by (simp add: kept_def runs_count_def others_outside_def)
      have k4: "kept out me (never_sets out b) st (?s3\<lparr>pending := None\<rparr>)"
        using k2 by (simp add: kept_def runs_count_def others_outside_def)
      from a x have "st' = ?s3 \<or> st' = ?s3\<lparr>pending := None\<rparr>
          \<or> (\<exists>ps. drain n ps (?s3\<lparr>pending := None\<rparr>) = Some st')"
        by (auto simp: Let_def simp del: drain.simps split: option.splits if_splits)
      then show "kept out me (never_sets out b) st st'"
      proof (elim disjE exE)
        fix ps assume "drain n ps (?s3\<lparr>pending := None\<rparr>) = Some st'"
        from dr[OF this kept_outside[OF k4]] have "kept out me True (?s3\<lparr>pending := None\<rparr>) st'" .
        with k4 show ?thesis by (rule kept_trans) simp
      qed (use k3 k4 in auto)
    qed }
  { case 7 show ?case
    proof (intro allI impI)
      fix es st st' assume a: "drain (Suc n) es st = Some st'" and o: "others_outside out me st"
      show "kept out me True st st'"
      proof (cases es)
        case Nil
        with a o show ?thesis by (auto intro: kept_refl)
      next
        case (Cons x xs)
        with a obtain st1 where x1: "effect n x st = Some st1" and x2: "drain n xs st1 = Some st'"
          by (auto simp del: effect.simps split: option.splits)
        from ef[OF x1 o] have k1: "kept out me True st st1" .
        from dr[OF x2 kept_outside[OF k1]] have "kept out me True st1 st'" .
        with k1 show ?thesis by (rule kept_trans) simp
      qed
    qed }
qed

lemma batch_effect_kept:
  assumes a: "batch n (TEffect e) st = Some (r, st')" and o: "others_outside out me st"
  shows "kept out me True st st'"
proof (cases n)
  case 0
  with a show ?thesis by simp
next
  case (Suc m)
  let ?s1 = "st\<lparr>batchDepth := Suc (batchDepth st),
                pending := (if batchDepth st = 0 then Some [] else pending st),
                schedule := True\<rparr>"
  have o1: "others_outside out me ?s1" using o by (simp add: others_outside_def)
  from a Suc obtain st2 where x: "effect m e ?s1 = Some st2"
    by (auto simp: Let_def simp del: drain.simps effect.simps split: option.splits)
  from memo_only_all(4)[rule_format, OF x o1] have "kept out me True ?s1 st2" .
  then have k2: "kept out me True st st2"
    by (simp add: kept_def runs_count_def)
  let ?s3 = "st2\<lparr>schedule := schedule st, batchDepth := batchDepth st2 - 1\<rparr>"
  have k3: "kept out me True st ?s3"
    using k2 by (simp add: kept_def runs_count_def others_outside_def)
  have k4: "kept out me True st (?s3\<lparr>pending := None\<rparr>)"
    using k2 by (simp add: kept_def runs_count_def others_outside_def)
  from a Suc x have "st' = ?s3 \<or> st' = ?s3\<lparr>pending := None\<rparr>
      \<or> (\<exists>ps. drain m ps (?s3\<lparr>pending := None\<rparr>) = Some st')"
    by (auto simp: Let_def simp del: drain.simps effect.simps split: option.splits if_splits)
  then show ?thesis
  proof (elim disjE exE)
    fix ps assume "drain m ps (?s3\<lparr>pending := None\<rparr>) = Some st'"
    from memo_only_all(7)[rule_format, OF this kept_outside[OF k4]]
    have "kept out me True (?s3\<lparr>pending := None\<rparr>) st'" .
    with k4 show ?thesis by (rule kept_trans) simp
  qed (use k3 k4 in auto)
qed

lemma knotMemo_outside:
  assumes a: "knotMemo n f st = Some (out, r, st')"
      and o: "others_outside (nextSid st) (nextEid st) st"
  shows "out = nextSid st \<and> others_outside out (nextEid st) st'"
proof -
  let ?st1 = "st\<lparr>vars := (vars st)(nextVid st := VBool False, Suc (nextVid st) := VUndef),
                  nextVid := Suc (Suc (nextVid st))\<rparr>"
  let ?st2 = "snd (createMoan VUndef ?st1)"
  let ?body = "memo_body f (nextVid st) (Suc (nextVid st)) (nextSid st)"
  let ?st3 = "?st2\<lparr>effects := (effects ?st2)(nextEid ?st2 := \<lparr>fn = ?body, disposed = False, cleanup = []\<rparr>),
                   nextEid := Suc (nextEid ?st2)\<rparr>"
  from a have out: "out = nextSid st"
    and b: "batch n (TEffect (nextEid st)) ?st3 = Some (r, st')"
    by (auto simp: knotMemo_def Let_def createMoan_def onClimax_def simp del: batch.simps)
  have "others_outside (nextSid st) (nextEid st) ?st3"
    using o by (simp add: others_outside_def createMoan_def)
  from batch_effect_kept[OF b this] out show ?thesis
    by (simp add: kept_def)
qed

subsection \<open>What every call leaves as it was\<close>

lemma exec_deferred_det:
  assumes "deferred st" "exec n p st = Some (r, st')"
  shows "\<exists>ss. defers st st' ss"
proof -
  from exec_deferred[OF assms(1), of p] obtain n' r' st'' ss
    where a: "exec n' p st = Some (r', st'')" and d: "defers st st'' ss" by blast
  from exec_mono[OF a, of "max n n'"] exec_mono[OF assms(2), of "max n n'"]
  have "st'' = st'" by simp
  with d show ?thesis by blast
qed

lemma steady_refl [simp]: "steady st st"
  by (simp add: steady_def)

lemma steady_trans: "steady a b \<Longrightarrow> steady b c \<Longrightarrow> steady a c"
  by (auto simp: steady_def intro: order_trans)

lemma tops_simps [simp]:
  "tops (emit ev st) = tops st"
  "tops (upd_signal s g st) = tops st"
  "tops (upd_effect e f st) = tops st"
  "tops (snd (read s st)) = tops st"
  "tops (effect_exit st)"
  by (simp_all add: tops_def read_def split: option.splits)

lemma steady_exit:
  assumes "steady (emit (Ran x) (st\<lparr>effectStack := effectStack st @ [x], currentEffect := Some x\<rparr>)) s2"
  shows "steady st (effect_exit s2)"
proof -
  let ?s0 = "emit (Ran x) (st\<lparr>effectStack := effectStack st @ [x], currentEffect := Some x\<rparr>)"
  have "runs_count e st \<le> runs_count e ?s0" for e
    by (simp add: runs_count_def emit_def)
  moreover have "runs_count e ?s0 \<le> runs_count e s2" for e
    using assms unfolding steady_def by blast
  ultimately have "runs_count e st \<le> runs_count e (effect_exit s2)" for e
    using order_trans by fastforce
  moreover have "\<forall>e. disposed (effects (effect_exit s2) e) = disposed (effects st e)"
    using assms by (simp add: steady_def)
  moreover have "effectStack (effect_exit s2) = effectStack st"
    using assms by (simp add: steady_def)
  moreover have "unbatched st \<longrightarrow> unbatched (effect_exit s2)"
    using assms by (simp add: steady_def unbatched_def)
  ultimately show ?thesis by (simp add: steady_def)
qed

lemma unbatched_simps [simp]:
  "unbatched (emit ev st) = unbatched st"
  "unbatched (effect_exit st) = unbatched st"
  "unbatched (upd_signal s g st) = unbatched st"
  "unbatched (upd_effect e f st) = unbatched st"
  "unbatched (snd (read s st)) = unbatched st"
  by (simp_all add: unbatched_def read_def split: option.splits)

lemma steady_all:
  shows "\<forall>p st r st'. exec n p st = Some (r, st') \<longrightarrow> steady st st'"
    and "\<forall>s v st r st'. write_sig n s v st = Some (r, st') \<longrightarrow> steady st st'"
    and "\<forall>s es st r st'. notify n s es st = Some (r, st') \<longrightarrow> steady st st'"
    and "\<forall>e st st'. effect n e st = Some st' \<longrightarrow> steady st st'"
    and "\<forall>e i len st r st'. forEach n e i len st = Some (r, st') \<longrightarrow> steady st st'"
    and "\<forall>b st r st'. batch n (TProg b) st = Some (r, st') \<longrightarrow> steady st st'"
    and "\<forall>es st st'. drain n es st = Some st' \<longrightarrow> steady st st'"
proof (induction n)
  case 0
  { case 1 then show ?case by simp }
  { case 2 then show ?case by simp }
  { case 3 then show ?case by simp }
  { case 4 then show ?case by simp }
  { case 5 then show ?case by simp }
  { case 6 then show ?case by simp }
  { case 7 then show ?case by simp }
next
  case (Suc n)
  note e = Suc.IH(1)[rule_format] and w = Suc.IH(2)[rule_format] and no = Suc.IH(3)[rule_format]
    and ef = Suc.IH(4)[rule_format] and fe = Suc.IH(5)[rule_format] and ba = Suc.IH(6)[rule_format]
    and dr = Suc.IH(7)[rule_format]
  { case 1 show ?case
    proof (intro allI impI)
      fix p st r st' assume a: "exec (Suc n) p st = Some (r, st')"
      show "steady st st'"
      proof (cases p)
        case (Read s k)
        with a have x: "exec n (k (sig_value (signals st s))) (snd (read s st)) = Some (r, st')"
          by simp
        from e[OF x] show ?thesis by (simp add: steady_def)
      next
        case (Write s v k)
        with a obtain r1 st1 where w1: "write_sig n s v st = Some (r1, st1)"
          and k1: "st' = st1 \<or> exec n k st1 = Some (r, st')"
          by (auto simp del: write_sig.simps split: option.splits outcome.splits prod.splits)
        from k1 w[OF w1] e[of k st1 r st'] show ?thesis by (auto intro: steady_trans)
      next
        case (Update s f k)
        with a obtain r1 st1 where w1: "write_sig n s (f (sig_value (signals st s))) st = Some (r1, st1)"
          and k1: "st' = st1 \<or> exec n k st1 = Some (r, st')"
          by (auto simp del: write_sig.simps split: option.splits outcome.splits prod.splits)
        from k1 w[OF w1] e[of k st1 r st'] show ?thesis by (auto intro: steady_trans)
      next
        case (Batch b k)
        with a obtain r1 st1 where w1: "batch n (TProg b) st = Some (r1, st1)"
          and k1: "st' = st1 \<or> exec n k st1 = Some (r, st')"
          by (auto simp del: batch.simps split: option.splits outcome.splits prod.splits)
        from k1 ba[OF w1] e[of k st1 r st'] show ?thesis by (auto intro: steady_trans)
      next
        case (Untrack b k)
        let ?s0 = "st\<lparr>currentEffect := None\<rparr>"
        from Untrack a obtain r1 st1 where w1: "exec n b ?s0 = Some (r1, st1)"
          and k1: "st' = st1\<lparr>currentEffect := currentEffect st\<rparr>
                   \<or> exec n k (st1\<lparr>currentEffect := currentEffect st\<rparr>) = Some (r, st')"
          by (auto split: option.splits outcome.splits prod.splits)
        from e[OF w1] have k0: "steady st (st1\<lparr>currentEffect := currentEffect st\<rparr>)"
          by (auto simp: steady_def unbatched_def runs_count_def tops_def split: option.splits)
        from k1 k0 e[of k "st1\<lparr>currentEffect := currentEffect st\<rparr>" r st'] show ?thesis
          by (auto intro: steady_trans)
      next
        case (Load x k)
        with a have x: "exec n (k (vars st x)) st = Some (r, st')" by simp
        from e[OF x] show ?thesis .
      next
        case (Store x v k)
        from Store a have x: "exec n k (st\<lparr>vars := (vars st)(x := v)\<rparr>) = Some (r, st')" by simp
        from e[OF x] show ?thesis by (auto simp: steady_def unbatched_def runs_count_def tops_def split: option.splits)
      qed (use a in auto)
    qed }
  { case 2 show ?case
    proof (intro allI impI)
      fix s v st r st' assume a: "write_sig (Suc n) s v st = Some (r, st')"
      show "steady st st'"
      proof (cases "sig_value (signals st s) = v")
        case True
        with a show ?thesis by auto
      next
        case False
        with a have x: "notify n s (subscribers (signals st s)) (upd_signal s (\<lambda>g. g\<lparr>sig_value := v\<rparr>) st) = Some (r, st')" by simp
        from no[OF x] show ?thesis by (simp add: steady_def)
      qed
    qed }
  { case 3 show ?case
    proof (intro allI impI)
      fix s es st r st' assume a: "notify (Suc n) s es st = Some (r, st')"
      show "steady st st'"
      proof (cases es)
        case Nil
        with a show ?thesis by auto
      next
        case (Cons x xs)
        show ?thesis
        proof (cases "x \<in> set (subscribers (signals st s))")
          case False
          with a Cons have "notify n s xs st = Some (r, st')" by simp
          from no[OF this] show ?thesis .
        next
          case True
          show ?thesis
          proof (cases "schedule st")
            case s: True
            show ?thesis
            proof (cases "pending st")
              case None
              with a Cons True s show ?thesis by auto
            next
              case (Some ps)
              let ?s0 = "emit (Scheduled x) (st\<lparr>pending := Some (set_add ps x)\<rparr>)"
              from a Cons True s Some have x: "notify n s xs ?s0 = Some (r, st')" by simp
              from no[OF x] s show ?thesis
                by (auto simp: steady_def unbatched_def runs_count_def emit_def tops_def split: option.splits)
            qed
          next
            case s: False
            with a Cons True obtain st1 where x1: "effect n x st = Some st1"
              and x2: "notify n s xs st1 = Some (r, st')"
              by (auto simp del: effect.simps split: option.splits)
            from ef[OF x1] no[OF x2] show ?thesis by (rule steady_trans)
          qed
        qed
      qed
    qed }
  { case 4 show ?case
    proof (intro allI impI)
      fix x st st' assume a: "effect (Suc n) x st = Some st'"
      show "steady st st'"
      proof (cases "disposed (effects st x)")
        case True
        with a show ?thesis by auto
      next
        case False
        let ?s0 = "emit (Ran x) (st\<lparr>effectStack := effectStack st @ [x], currentEffect := Some x\<rparr>)"
        from False a obtain r1 st1 where f1: "forEach n x 0 (length (cleanup (effects st x))) ?s0 = Some (r1, st1)"
          by (auto simp del: forEach.simps split: option.splits)
        from fe[OF f1] have k1: "steady ?s0 st1" .
        show ?thesis
        proof (cases "\<exists>err. r1 = Thrown err")
          case True
          with False a f1 obtain err where s: "st' = effect_exit (emit (Logged err) st1)"
            by (auto simp del: forEach.simps)
          from k1 have "steady ?s0 (emit (Logged err) st1)" by (simp add: steady_def)
          from steady_exit[OF this] s show ?thesis by simp
        next
          case nt: False
          let ?s2 = "upd_effect x (\<lambda>r. r\<lparr>cleanup := []\<rparr>) st1"
          have k2: "steady ?s0 ?s2" using k1 by (simp add: steady_def)
          from False a f1 nt obtain r2 st2 where x2: "exec n (fn (effects st1 x)) ?s2 = Some (r2, st2)"
            by (cases r1) (auto simp del: forEach.simps split: option.splits)
          from k2 e[OF x2] have k4: "steady ?s0 st2" by (rule steady_trans)
          show ?thesis
          proof (cases r2)
            case (Returned v)
            with False a f1 nt x2 have "st' = effect_exit st2"
              by (cases r1) (auto simp del: forEach.simps)
            with steady_exit[OF k4] show ?thesis by simp
          next
            case (ReturnedFn c)
            with False a f1 nt x2 have s: "st' = effect_exit (upd_effect x (\<lambda>r. r\<lparr>cleanup := cleanup r @ [c]\<rparr>) st2)"
              by (cases r1) (auto simp del: forEach.simps)
            from k4 have "steady ?s0 (upd_effect x (\<lambda>r. r\<lparr>cleanup := cleanup r @ [c]\<rparr>) st2)"
              by (simp add: steady_def)
            from steady_exit[OF this] s show ?thesis by simp
          next
            case (Thrown err)
            with False a f1 nt x2 have s: "st' = effect_exit (emit (Logged err) st2)"
              by (cases r1) (auto simp del: forEach.simps)
            from k4 have "steady ?s0 (emit (Logged err) st2)" by (simp add: steady_def)
            from steady_exit[OF this] s show ?thesis by simp
          qed
        qed
      qed
    qed }
  { case 5 show ?case
    proof (intro allI impI)
      fix x i len st r st' assume a: "forEach (Suc n) x i len st = Some (r, st')"
      show "steady st st'"
      proof (cases "i < len")
        case False
        with a show ?thesis
          by (subst (asm) forEach.simps(2)) auto
      next
        case il: True
        show ?thesis
        proof (cases "i < length (cleanup (effects st x))")
          case False
          with a il have "forEach n x (Suc i) len st = Some (r, st')"
            by (subst (asm) forEach.simps(2)) simp
          from fe[OF this] show ?thesis .
        next
          case True
          with a il obtain r1 st1 where x1: "exec n (cleanup (effects st x) ! i) st = Some (r1, st1)"
            and x2: "st' = st1 \<or> forEach n x (Suc i) len st1 = Some (r, st')"
            by (subst (asm) forEach.simps(2))
               (auto simp del: forEach.simps split: option.splits outcome.splits prod.splits)
          from x2 e[OF x1] fe[of x "Suc i" len st1 r st'] show ?thesis
            by (auto intro: steady_trans)
        qed
      qed
    qed }
  { case 6 show ?case
    proof (intro allI impI)
      fix b st r st' assume a: "batch (Suc n) (TProg b) st = Some (r, st')"
      let ?s1 = "st\<lparr>batchDepth := Suc (batchDepth st),
                    pending := (if batchDepth st = 0 then Some [] else pending st),
                    schedule := True\<rparr>"
      from a obtain r2 st2 where x: "exec n b ?s1 = Some (r2, st2)"
        by (auto simp: Let_def simp del: drain.simps split: option.splits)
      let ?s3 = "st2\<lparr>schedule := schedule st, batchDepth := batchDepth st2 - 1\<rparr>"
      let ?s4 = "?s3\<lparr>pending := None\<rparr>"
      from a x have res: "(batchDepth st2 - 1 \<noteq> 0 \<and> st' = ?s3) \<or> (batchDepth st2 - 1 = 0 \<and> pending st2 = None \<and> st' = ?s4)
          \<or> (batchDepth st2 - 1 = 0 \<and> (\<exists>ps. drain n ps ?s4 = Some st'))"
        by (auto simp: Let_def simp del: drain.simps split: option.splits if_splits)
      have t1: "tops st \<Longrightarrow> tops ?s1" by (auto simp: tops_def split: option.splits)
      from e[OF x] t1 have b3: "(\<forall>e. runs_count e st \<le> runs_count e ?s3) \<and> (\<forall>e. disposed (effects ?s3 e) = disposed (effects st e))
          \<and> effectStack ?s3 = effectStack st \<and> (tops st \<longrightarrow> tops ?s3)"
        and b4: "(\<forall>e. runs_count e st \<le> runs_count e ?s4) \<and> (\<forall>e. disposed (effects ?s4 e) = disposed (effects st e))
          \<and> effectStack ?s4 = effectStack st \<and> (tops st \<longrightarrow> tops ?s4)"
        by (auto simp: steady_def runs_count_def tops_def split: option.splits)
      have u: "batchDepth st2 = 1 \<and> pending st2 \<noteq> None" if "unbatched st"
      proof -
        from that have "deferred ?s1" by (simp add: deferred_def unbatched_def)
        from exec_deferred_det[OF this x] obtain ss where "defers ?s1 st2 ss" by blast
        with that show ?thesis by (simp add: defers_def unbatched_def)
      qed
      have u4: "unbatched st \<Longrightarrow> unbatched ?s4" using u by (simp add: unbatched_def)
      from res show "steady st st'"
      proof (elim disjE conjE exE)
        assume "batchDepth st2 - 1 \<noteq> 0" "st' = ?s3"
        with b3 u show ?thesis by (auto simp: steady_def)
      next
        assume "batchDepth st2 - 1 = 0" "pending st2 = None" "st' = ?s4"
        with b4 u show ?thesis by (auto simp: steady_def)
      next
        fix ps assume "batchDepth st2 - 1 = 0" "drain n ps ?s4 = Some st'"
        from dr[OF this(2)] have "steady ?s4 st'" .
        moreover have "steady st ?s4" using b4 u4 by (simp add: steady_def)
        ultimately show ?thesis by (rule steady_trans[rotated])
      qed
    qed }
  { case 7 show ?case
    proof (intro allI impI)
      fix es st st' assume a: "drain (Suc n) es st = Some st'"
      show "steady st st'"
      proof (cases es)
        case Nil
        with a show ?thesis by auto
      next
        case (Cons x xs)
        with a obtain st1 where x1: "effect n x st = Some st1" and x2: "drain n xs st1 = Some st'"
          by (auto simp del: effect.simps split: option.splits)
        from ef[OF x1] dr[OF x2] show ?thesis by (rule steady_trans)
      qed
    qed }
qed

subsection \<open>Calls made when no batch is open\<close>

lemma effect_runs:
  assumes d: "\<not> disposed (effects st e)" and a: "effect n e st = Some st'"
  shows "runs_count e st < runs_count e st'"
proof (cases n)
  case 0
  with a show ?thesis by simp
next
  case (Suc m)
  let ?s0 = "emit (Ran e) (st\<lparr>effectStack := effectStack st @ [e], currentEffect := Some e\<rparr>)"
  have c0: "runs_count e ?s0 = Suc (runs_count e st)"
    by (simp add: runs_count_def emit_def)
  from d a Suc obtain r1 st1 where f1: "forEach m e 0 (length (cleanup (effects st e))) ?s0 = Some (r1, st1)"
    by (auto simp del: forEach.simps split: option.splits)
  have k1: "runs_count e ?s0 \<le> runs_count e st1"
    using steady_all(5)[rule_format, OF f1] unfolding steady_def by blast
  show ?thesis
  proof (cases "\<exists>err. r1 = Thrown err")
    case True
    with d a Suc f1 obtain err where "st' = effect_exit (emit (Logged err) st1)"
      by (auto simp del: forEach.simps)
    with k1 c0 show ?thesis by simp
  next
    case nt: False
    let ?s2 = "upd_effect e (\<lambda>r. r\<lparr>cleanup := []\<rparr>) st1"
    from d a Suc f1 nt obtain r2 st2 where x2: "exec m (fn (effects st1 e)) ?s2 = Some (r2, st2)"
      by (cases r1) (auto simp del: forEach.simps split: option.splits)
    have "runs_count e ?s2 \<le> runs_count e st2"
      using steady_all(1)[rule_format, OF x2] unfolding steady_def by blast
    then have k2: "runs_count e st1 \<le> runs_count e st2" by simp
    have "runs_count e st' = runs_count e st2"
    proof (cases r2)
      case (Returned v)
      with d a Suc f1 nt x2 have "st' = effect_exit st2"
        by (cases r1) (auto simp del: forEach.simps)
      then show ?thesis by simp
    next
      case (ReturnedFn c)
      with d a Suc f1 nt x2 have "st' = effect_exit (upd_effect e (\<lambda>r. r\<lparr>cleanup := cleanup r @ [c]\<rparr>) st2)"
        by (cases r1) (auto simp del: forEach.simps)
      then show ?thesis by simp
    next
      case (Thrown err)
      with d a Suc f1 nt x2 have "st' = effect_exit (emit (Logged err) st2)"
        by (cases r1) (auto simp del: forEach.simps)
      then show ?thesis by simp
    qed
    with k1 k2 c0 show ?thesis by simp
  qed
qed

lemma notify_runs:
  "unbatched st \<Longrightarrow> notify n s es st = Some (r, st') \<Longrightarrow> e \<in> set es
   \<Longrightarrow> e \<in> set (subscribers (signals st s)) \<Longrightarrow> \<not> disposed (effects st e)
   \<Longrightarrow> runs_count e st < runs_count e st'"
proof (induction es arbitrary: n st)
  case Nil
  then show ?case by simp
next
  case (Cons x xs)
  from Cons.prems(2) obtain m where n: "n = Suc m" by (cases n) auto
  have ns: "\<not> schedule st" using Cons.prems(1) by (simp add: unbatched_def)
  show ?case
  proof (cases "x \<in> set (subscribers (signals st s))")
    case False
    with Cons.prems n have "notify m s xs st = Some (r, st')" "e \<in> set xs" by auto
    from Cons.IH[OF Cons.prems(1) this Cons.prems(4,5)] show ?thesis .
  next
    case True
    with Cons.prems(2) n ns obtain st1 where x1: "effect m x st = Some st1"
      and x2: "notify m s xs st1 = Some (r, st')"
      by (auto simp del: effect.simps split: option.splits)
    note s1 = steady_all(4)[rule_format, OF x1] and s2 = steady_all(3)[rule_format, OF x2]
    show ?thesis
    proof (cases "x = e")
      case True
      from effect_runs[OF Cons.prems(5) x1[unfolded True]] s2 show ?thesis
        by (auto simp: steady_def intro: less_le_trans)
    next
      case False
      with Cons.prems(3) have "e \<in> set xs" by simp
      moreover have "unbatched st1" using s1 Cons.prems(1) by (simp add: steady_def)
      moreover have "e \<in> set (subscribers (signals st1 s))"
        using subs_mono_all(4)[rule_format, OF x1] Cons.prems(4) by (auto simp: subs_le_def)
      moreover have "\<not> disposed (effects st1 e)" using s1 Cons.prems(5) by (simp add: steady_def)
      ultimately have "runs_count e st1 < runs_count e st'"
        using Cons.IH[OF _ x2] by blast
      with s1 show ?thesis by (auto simp: steady_def intro: le_less_trans)
    qed
  qed
qed

lemma write_runs:
  assumes "unbatched st" "sig_value (signals st s) \<noteq> v" "write_sig n s v st = Some (r, st')"
    "e \<in> set (subscribers (signals st s))" "\<not> disposed (effects st e)"
  shows "runs_count e st < runs_count e st'"
proof -
  from assms(3) obtain m where n: "n = Suc m" by (cases n) auto
  let ?s0 = "upd_signal s (\<lambda>g. g\<lparr>sig_value := v\<rparr>) st"
  from assms(2,3) n have x: "notify m s (subscribers (signals st s)) ?s0 = Some (r, st')" by simp
  have "runs_count e ?s0 < runs_count e st'"
    by (rule notify_runs[OF _ x assms(4)]) (use assms in simp_all)
  then show ?thesis by simp
qed

lemma drain_drained:
  "unbatched st \<Longrightarrow> drain n es st = Some st' \<Longrightarrow> drained es st st'"
proof (induction es arbitrary: n st)
  case Nil
  then have "st' = st" by (cases n) auto
  then show ?case by (simp add: drained_none)
next
  case (Cons x xs)
  from Cons.prems(2) obtain m where n: "n = Suc m" by (cases n) auto
  with Cons.prems(2) obtain st1 where x1: "effect m x st = Some st1" and x2: "drain m xs st1 = Some st'"
    by (auto simp del: effect.simps split: option.splits)
  have "unbatched st1" using steady_all(4)[rule_format, OF x1] Cons.prems(1) by (simp add: steady_def)
  from Cons.IH[OF this x2] have "drained xs st1 st'" .
  with Cons.prems(1) x1 show ?case by (rule drained_call)
qed

subsection \<open>Effects that write, and effects that keep apart from what is written\<close>

lemma unmoved_refl: "fenced H E st \<Longrightarrow> unmoved H E st st"
  by (simp add: unmoved_def)

lemma unmoved_trans: "unmoved H E a b \<Longrightarrow> unmoved H E b c \<Longrightarrow> unmoved H E a c"
  by (simp add: unmoved_def)

lemma unmoved_fenced: "unmoved H E st st' \<Longrightarrow> fenced H E st'"
  by (simp add: unmoved_def)

lemma steady_tops: "steady st st' \<Longrightarrow> tops st \<Longrightarrow> tops st'"
  by (simp add: steady_def)

lemma steady_owned: "steady st st' \<Longrightarrow> owned E st' = owned E st"
  by (simp add: steady_def owned_def)

lemma steady_stack: "steady st st' \<Longrightarrow> effectStack st' = effectStack st"
  by (simp add: steady_def)

lemma fenced_simps [simp]:
  "fenced H E (emit ev st) = fenced H E st"
  "fenced H E (effect_exit st) = fenced H E st"
  by (simp_all add: fenced_def feeds_def apart_def)

lemma fenced_read:
  assumes "fenced H E st" "tops st" "owned E st \<longrightarrow> s \<notin> H"
  shows "fenced H E (snd (read s st))"
proof (cases "currentEffect st")
  case None
  with assms show ?thesis by (simp add: read_def)
next
  case (Some c)
  have "e \<notin> set (subscribers (signals (snd (read s st)) s'))" if "e \<in> E" "s' \<in> H" for e s'
  proof -
    from assms(1) that have n: "e \<notin> set (subscribers (signals st s'))"
      by (simp add: fenced_def apart_def)
    show ?thesis
    proof (cases "s' = s \<and> c = e")
      case True
      with Some assms(2) that have "owned E st" by (simp add: tops_def owned_def)
      with assms(3) True that show ?thesis by simp
    next
      case False
      with n Some show ?thesis
        by (auto simp: read_def upd_signal_def set_add_def)
    qed
  qed
  with assms(1) show ?thesis
    by (simp add: fenced_def feeds_def apart_def)
qed

lemma fenced_value: "fenced H E st \<Longrightarrow> fenced H E (upd_signal s (\<lambda>g. g\<lparr>sig_value := v\<rparr>) st)"
  by (simp add: fenced_def feeds_def apart_def)

lemma fenced_nocleanup: "fenced H E st \<Longrightarrow> fenced H E (upd_effect x (\<lambda>r. r\<lparr>cleanup := []\<rparr>) st)"
  by (simp add: fenced_def feeds_def apart_def)

lemma fenced_cleanup:
  "fenced H E st \<Longrightarrow> writes_only H c \<Longrightarrow> (x \<in> E \<Longrightarrow> reads_outside H c)
   \<Longrightarrow> fenced H E (upd_effect x (\<lambda>r. r\<lparr>cleanup := cleanup r @ [c]\<rparr>) st)"
  by (simp add: fenced_def feeds_def apart_def)

lemma fenced_all:
  shows "\<forall>p st r st'. exec n p st = Some (r, st') \<longrightarrow> fenced H E st \<longrightarrow> tops st
           \<longrightarrow> writes_only H p \<longrightarrow> (owned E st \<longrightarrow> reads_outside H p)
           \<longrightarrow> unmoved H E st st'
               \<and> (\<forall>c. r = ReturnedFn c \<longrightarrow> writes_only H c \<and> (reads_outside H p \<longrightarrow> reads_outside H c))"
    and "\<forall>s v st r st'. write_sig n s v st = Some (r, st') \<longrightarrow> fenced H E st \<longrightarrow> tops st
           \<longrightarrow> s \<in> H \<longrightarrow> unmoved H E st st'"
    and "\<forall>s es st r st'. notify n s es st = Some (r, st') \<longrightarrow> fenced H E st \<longrightarrow> tops st
           \<longrightarrow> s \<in> H \<longrightarrow> unmoved H E st st'"
    and "\<forall>x st st'. effect n x st = Some st' \<longrightarrow> fenced H E st
           \<longrightarrow> fenced H E st'
               \<and> (\<forall>e\<in>E. runs_count e st'
                     = runs_count e st + (if x = e \<and> \<not> disposed (effects st x) then 1 else 0))"
    and "\<forall>x i len st r st'. forEach n x i len st = Some (r, st') \<longrightarrow> fenced H E st \<longrightarrow> tops st
           \<longrightarrow> effectStack st \<noteq> [] \<longrightarrow> last (effectStack st) = x
           \<longrightarrow> unmoved H E st st'"
    and "\<forall>b st r st'. batch n (TProg b) st = Some (r, st') \<longrightarrow> fenced H E st \<longrightarrow> tops st
           \<longrightarrow> writes_only H b \<longrightarrow> (owned E st \<longrightarrow> reads_outside H b)
           \<longrightarrow> unmoved H E st st'"
    and "\<forall>es st st'. drain n es st = Some st' \<longrightarrow> fenced H E st
           \<longrightarrow> fenced H E st'
               \<and> (\<forall>e\<in>E. runs_count e st'
                     = runs_count e st + length (filter (\<lambda>x. x = e \<and> \<not> disposed (effects st x)) es))"
proof (induction n)
  case 0
  { case 1 then show ?case by simp }
  { case 2 then show ?case by simp }
  { case 3 then show ?case by simp }
  { case 4 then show ?case by simp }
  { case 5 then show ?case by simp }
  { case 6 then show ?case by simp }
  { case 7 then show ?case by simp }
next
  case (Suc n)
  note e = Suc.IH(1)[rule_format] and w = Suc.IH(2)[rule_format] and no = Suc.IH(3)[rule_format]
    and ef = Suc.IH(4)[rule_format] and fe = Suc.IH(5)[rule_format] and ba = Suc.IH(6)[rule_format]
    and dr = Suc.IH(7)[rule_format]
  { case 1 show ?case
    proof (intro allI impI)
      fix p st r st'
      assume a: "exec (Suc n) p st = Some (r, st')" and o: "fenced H E st" and t: "tops st"
        and wo: "writes_only H p" and ro: "owned E st \<longrightarrow> reads_outside H p"
      let ?goal = "unmoved H E st st'
               \<and> (\<forall>c. r = ReturnedFn c \<longrightarrow> writes_only H c \<and> (reads_outside H p \<longrightarrow> reads_outside H c))"
      have after: ?goal
        if k0: "unmoved H E st st1" and s1: "steady st st1"
          and k1: "(\<exists>err. r1 = Thrown err \<and> r = r1 \<and> st' = st1) \<or> exec n k st1 = Some (r, st')"
          and wk: "writes_only H k" and rk: "reads_outside H p \<longrightarrow> reads_outside H k"
        for st1 r1 k
        using k1
      proof
        assume "\<exists>err. r1 = Thrown err \<and> r = r1 \<and> st' = st1"
        with k0 show ?thesis by auto
      next
        assume x: "exec n k st1 = Some (r, st')"
        have "owned E st1 \<longrightarrow> reads_outside H k"
          using steady_owned[OF s1] ro rk by simp
        from e[OF x unmoved_fenced[OF k0] steady_tops[OF s1 t] wk this[THEN mp]] k0 rk show ?thesis
          by (auto intro: unmoved_trans)
      qed
      show ?goal
      proof (cases p)
        case (Ret v)
        with a o show ?thesis by (auto intro: unmoved_refl)
      next
        case (RetFn c)
        with a o wo show ?thesis by (auto intro: unmoved_refl)
      next
        case (Throw v)
        with a o show ?thesis by (auto intro: unmoved_refl)
      next
        case (Read s k)
        let ?s1 = "snd (read s st)"
        from Read ro have "owned E st \<longrightarrow> s \<notin> H" by simp
        from fenced_read[OF o t this] have o1: "fenced H E ?s1" .
        have t1: "tops ?s1" using t by simp
        have ow: "owned E ?s1 = owned E st" by (simp add: owned_def)
        from Read a have x: "exec n (k (sig_value (signals st s))) ?s1 = Some (r, st')"
          by simp
        from Read wo have wk: "writes_only H (k (sig_value (signals st s)))" by simp
        from Read ro ow have rk: "owned E ?s1 \<longrightarrow> reads_outside H (k (sig_value (signals st s)))" by simp
        from e[OF x o1 t1 wk rk[THEN mp]] Read show ?thesis
          by (auto simp: unmoved_def)
      next
        case (Write s v k)
        with a obtain r1 st1 where w1: "write_sig n s v st = Some (r1, st1)"
          and k1: "(\<exists>err. r1 = Thrown err \<and> r = r1 \<and> st' = st1) \<or> exec n k st1 = Some (r, st')"
          by (auto simp del: write_sig.simps split: option.splits outcome.splits prod.splits)
        from Write wo have sH: "s \<in> H" and wk: "writes_only H k" by simp_all
        from w[OF w1 o t sH] have k0: "unmoved H E st st1" .
        from after[OF k0 steady_all(2)[rule_format, OF w1] k1 wk] Write show ?thesis by simp
      next
        case (Update s f k)
        with a obtain r1 st1 where w1: "write_sig n s (f (sig_value (signals st s))) st = Some (r1, st1)"
          and k1: "(\<exists>err. r1 = Thrown err \<and> r = r1 \<and> st' = st1) \<or> exec n k st1 = Some (r, st')"
          by (auto simp del: write_sig.simps split: option.splits outcome.splits prod.splits)
        from Update wo have sH: "s \<in> H" and wk: "writes_only H k" by simp_all
        from w[OF w1 o t sH] have k0: "unmoved H E st st1" .
        from after[OF k0 steady_all(2)[rule_format, OF w1] k1 wk] Update show ?thesis by simp
      next
        case (Batch b k)
        with a obtain r1 st1 where w1: "batch n (TProg b) st = Some (r1, st1)"
          and k1: "(\<exists>err. r1 = Thrown err \<and> r = r1 \<and> st' = st1) \<or> exec n k st1 = Some (r, st')"
          by (auto simp del: batch.simps split: option.splits outcome.splits prod.splits)
        from Batch wo have wb: "writes_only H b" and wk: "writes_only H k" by simp_all
        from Batch ro have rb: "owned E st \<longrightarrow> reads_outside H b" by simp
        from ba[OF w1 o t wb rb[THEN mp]] have k0: "unmoved H E st st1" .
        from after[OF k0 steady_all(6)[rule_format, OF w1] k1 wk] Batch show ?thesis by simp
      next
        case (Untrack b k)
        let ?s0 = "st\<lparr>currentEffect := None\<rparr>"
        have o0: "fenced H E ?s0" using o by (simp add: fenced_def feeds_def apart_def)
        have t0: "tops ?s0" by (simp add: tops_def)
        have ow0: "owned E ?s0 = owned E st" by (simp add: owned_def)
        from Untrack a obtain r1 st1 where w1: "exec n b ?s0 = Some (r1, st1)"
          and k1: "(\<exists>err. r1 = Thrown err \<and> r = r1 \<and> st' = st1\<lparr>currentEffect := currentEffect st\<rparr>)
                   \<or> exec n k (st1\<lparr>currentEffect := currentEffect st\<rparr>) = Some (r, st')"
          by (auto split: option.splits outcome.splits prod.splits)
        from Untrack wo have wb: "writes_only H b" and wk: "writes_only H k" by simp_all
        from Untrack ro ow0 have rb: "owned E ?s0 \<longrightarrow> reads_outside H b" by simp
        from e[OF w1 o0 t0 wb rb[THEN mp]] have k0: "unmoved H E ?s0 st1" by simp
        let ?s1 = "st1\<lparr>currentEffect := currentEffect st\<rparr>"
        have k0': "unmoved H E st ?s1"
          using k0 by (simp add: unmoved_def fenced_def feeds_def apart_def runs_count_def)
        note s01 = steady_all(1)[rule_format, OF w1]
        have s1: "steady st ?s1"
          using s01 t by (auto simp: steady_def unbatched_def runs_count_def tops_def split: option.splits)
        from after[OF k0' s1 k1 wk] Untrack show ?thesis by simp
      next
        case (Load x k)
        with a have x: "exec n (k (vars st x)) st = Some (r, st')" by simp
        from Load wo ro have wk: "writes_only H (k (vars st x))"
          and rk: "owned E st \<longrightarrow> reads_outside H (k (vars st x))"
          by simp_all
        from e[OF x o t wk rk[THEN mp]] Load show ?thesis by auto
      next
        case (Store x v k)
        let ?s0 = "st\<lparr>vars := (vars st)(x := v)\<rparr>"
        have o0: "fenced H E ?s0" using o by (simp add: fenced_def feeds_def apart_def)
        have t0: "tops ?s0" using t by (simp add: tops_def)
        have ow0: "owned E ?s0 = owned E st" by (simp add: owned_def)
        from Store a have x: "exec n k ?s0 = Some (r, st')" by simp
        from Store wo ro ow0 have wk: "writes_only H k" and rk: "owned E ?s0 \<longrightarrow> reads_outside H k"
          by simp_all
        from e[OF x o0 t0 wk rk[THEN mp]] Store show ?thesis by (auto simp: unmoved_def runs_count_def)
      qed
    qed }
  { case 2 show ?case
    proof (intro allI impI)
      fix s v st r st'
      assume a: "write_sig (Suc n) s v st = Some (r, st')" and o: "fenced H E st" and t: "tops st"
        and sH: "s \<in> H"
      show "unmoved H E st st'"
      proof (cases "sig_value (signals st s) = v")
        case True
        with a o show ?thesis by (auto intro: unmoved_refl)
      next
        case False
        let ?s0 = "upd_signal s (\<lambda>g. g\<lparr>sig_value := v\<rparr>) st"
        from False a have x: "notify n s (subscribers (signals st s)) ?s0 = Some (r, st')" by simp
        have "tops ?s0" using t by simp
        from no[OF x fenced_value[OF o] this sH] show ?thesis by (simp add: unmoved_def)
      qed
    qed }
  { case 3 show ?case
    proof (intro allI impI)
      fix s es st r st'
      assume a: "notify (Suc n) s es st = Some (r, st')" and o: "fenced H E st" and t: "tops st"
        and sH: "s \<in> H"
      show "unmoved H E st st'"
      proof (cases es)
        case Nil
        with a o show ?thesis by (auto intro: unmoved_refl)
      next
        case (Cons x xs)
        show ?thesis
        proof (cases "x \<in> set (subscribers (signals st s))")
          case False
          with a Cons have "notify n s xs st = Some (r, st')" by simp
          from no[OF this o t sH] show ?thesis .
        next
          case True
          with o sH have xE: "x \<notin> E" by (auto simp: fenced_def apart_def)
          show ?thesis
          proof (cases "schedule st")
            case s: True
            show ?thesis
            proof (cases "pending st")
              case None
              with a Cons True s o show ?thesis by (auto intro: unmoved_refl)
            next
              case (Some ps)
              let ?s0 = "emit (Scheduled x) (st\<lparr>pending := Some (set_add ps x)\<rparr>)"
              from a Cons True s Some have x: "notify n s xs ?s0 = Some (r, st')" by simp
              have o0: "fenced H E ?s0" using o xE Some
                by (auto simp: fenced_def feeds_def apart_def set_add_def)
              have t0: "tops ?s0" using t by (simp add: tops_def)
              from no[OF x o0 t0 sH] show ?thesis
                by (simp add: unmoved_def runs_count_def emit_def)
            qed
          next
            case s: False
            with a Cons True obtain st1 where x1: "effect n x st = Some st1"
              and x2: "notify n s xs st1 = Some (r, st')"
              by (auto simp del: effect.simps split: option.splits)
            from ef[OF x1 o] xE have k1: "unmoved H E st st1" by (auto simp: unmoved_def)
            note t1 = steady_tops[OF steady_all(4)[rule_format, OF x1] t]
            from no[OF x2 unmoved_fenced[OF k1] t1 sH] k1 show ?thesis
              by (auto intro: unmoved_trans)
          qed
        qed
      qed
    qed }
  { case 4 show ?case
    proof (intro allI impI)
      fix x st st' assume a: "effect (Suc n) x st = Some st'" and o: "fenced H E st"
      let ?goal = "fenced H E st'
               \<and> (\<forall>e\<in>E. runs_count e st'
                     = runs_count e st + (if x = e \<and> \<not> disposed (effects st x) then 1 else 0))"
      show ?goal
      proof (cases "disposed (effects st x)")
        case True
        with a o show ?thesis by auto
      next
        case False
        let ?s0 = "emit (Ran x) (st\<lparr>effectStack := effectStack st @ [x], currentEffect := Some x\<rparr>)"
        have o0: "fenced H E ?s0" using o by (simp add: fenced_def feeds_def apart_def)
        have t0: "tops ?s0" by (simp add: tops_def)
        have l0: "effectStack ?s0 \<noteq> []" "last (effectStack ?s0) = x" by simp_all
        have c0: "\<forall>e\<in>E. runs_count e ?s0 = runs_count e st + (if x = e \<and> \<not> disposed (effects st x) then 1 else 0)"
          using False by (simp add: runs_count_def emit_def)
        have fin: ?goal if "unmoved H E ?s0 s2" "st' = effect_exit s2" for s2
          using that c0 by (simp add: unmoved_def)
        from False a obtain r1 st1 where f1: "forEach n x 0 (length (cleanup (effects st x))) ?s0 = Some (r1, st1)"
          by (auto simp del: forEach.simps split: option.splits)
        from fe[OF f1 o0 t0 l0] have k1: "unmoved H E ?s0 st1" .
        note s1 = steady_all(5)[rule_format, OF f1]
        note o1 = unmoved_fenced[OF k1]
        show ?thesis
        proof (cases "\<exists>err. r1 = Thrown err")
          case True
          with False a f1 obtain err where s: "st' = effect_exit (emit (Logged err) st1)"
            by (auto simp del: forEach.simps)
          from k1 have "unmoved H E ?s0 (emit (Logged err) st1)" by (simp add: unmoved_def)
          from fin[OF this s] show ?thesis .
        next
          case nt: False
          let ?s2 = "upd_effect x (\<lambda>r. r\<lparr>cleanup := []\<rparr>) st1"
          have o2: "fenced H E ?s2" using o1 by (rule fenced_nocleanup)
          have k2: "unmoved H E ?s0 ?s2" using k1 o2 by (simp add: unmoved_def)
          have t2: "tops ?s2" using steady_tops[OF s1 t0] by simp
          have st2x: "effectStack ?s2 = effectStack ?s0" using steady_stack[OF s1] by simp
          have wf: "writes_only H (fn (effects st1 x))" using o1 by (simp add: fenced_def feeds_def)
          have rf: "x \<in> E \<Longrightarrow> reads_outside H (fn (effects st1 x))"
            using o1 by (simp add: fenced_def apart_def)
          have rf': "owned E ?s2 \<longrightarrow> reads_outside H (fn (effects st1 x))"
            using rf st2x by (simp add: owned_def)
          from False a f1 nt obtain r2 st2 where x2: "exec n (fn (effects st1 x)) ?s2 = Some (r2, st2)"
            by (cases r1) (auto simp del: forEach.simps split: option.splits)
          from e[OF x2 o2 t2 wf rf'[THEN mp]] have k3: "unmoved H E ?s2 st2"
            and q3: "\<forall>c. r2 = ReturnedFn c \<longrightarrow> writes_only H c \<and> (reads_outside H (fn (effects st1 x)) \<longrightarrow> reads_outside H c)"
            by simp_all
          from k2 k3 have k4: "unmoved H E ?s0 st2" by (rule unmoved_trans)
          show ?thesis
          proof (cases r2)
            case (Returned v)
            with False a f1 nt x2 have "st' = effect_exit st2"
              by (cases r1) (auto simp del: forEach.simps)
            from fin[OF k4 this] show ?thesis .
          next
            case (ReturnedFn c)
            with False a f1 nt x2 have s: "st' = effect_exit (upd_effect x (\<lambda>r. r\<lparr>cleanup := cleanup r @ [c]\<rparr>) st2)"
              by (cases r1) (auto simp del: forEach.simps)
            from q3 ReturnedFn rf have "writes_only H c" "x \<in> E \<Longrightarrow> reads_outside H c" by simp_all
            from fenced_cleanup[OF unmoved_fenced[OF k4] this]
            have "fenced H E (upd_effect x (\<lambda>r. r\<lparr>cleanup := cleanup r @ [c]\<rparr>) st2)" .
            with k4 have "unmoved H E ?s0 (upd_effect x (\<lambda>r. r\<lparr>cleanup := cleanup r @ [c]\<rparr>) st2)"
              by (simp add: unmoved_def)
            from fin[OF this s] show ?thesis .
          next
            case (Thrown err)
            with False a f1 nt x2 have s: "st' = effect_exit (emit (Logged err) st2)"
              by (cases r1) (auto simp del: forEach.simps)
            from k4 have "unmoved H E ?s0 (emit (Logged err) st2)" by (simp add: unmoved_def)
            from fin[OF this s] show ?thesis .
          qed
        qed
      qed
    qed }
  { case 5 show ?case
    proof (intro allI impI)
      fix x i len st r st'
      assume a: "forEach (Suc n) x i len st = Some (r, st')" and o: "fenced H E st" and t: "tops st"
        and l: "effectStack st \<noteq> []" "last (effectStack st) = x"
      show "unmoved H E st st'"
      proof (cases "i < len")
        case False
        with a o show ?thesis
          by (subst (asm) forEach.simps(2)) (auto intro: unmoved_refl)
      next
        case il: True
        show ?thesis
        proof (cases "i < length (cleanup (effects st x))")
          case False
          with a il have "forEach n x (Suc i) len st = Some (r, st')"
            by (subst (asm) forEach.simps(2)) simp
          from fe[OF this o t l] show ?thesis .
        next
          case True
          with a il obtain r1 st1 where x1: "exec n (cleanup (effects st x) ! i) st = Some (r1, st1)"
            and x2: "(\<exists>err. r1 = Thrown err \<and> r = r1 \<and> st' = st1) \<or> forEach n x (Suc i) len st1 = Some (r, st')"
            by (subst (asm) forEach.simps(2))
               (auto simp del: forEach.simps split: option.splits outcome.splits prod.splits)
          have wc: "writes_only H (cleanup (effects st x) ! i)"
            using o True by (simp add: fenced_def feeds_def list_all_length)
          have rc: "owned E st \<longrightarrow> reads_outside H (cleanup (effects st x) ! i)"
            using o True l by (auto simp: fenced_def apart_def owned_def list_all_length)
          from e[OF x1 o t wc rc[THEN mp]] have k1: "unmoved H E st st1" by simp
          note s1 = steady_all(1)[rule_format, OF x1]
          from x2 show ?thesis
          proof
            assume "\<exists>err. r1 = Thrown err \<and> r = r1 \<and> st' = st1"
            with k1 show ?thesis by auto
          next
            assume x3: "forEach n x (Suc i) len st1 = Some (r, st')"
            have l1: "effectStack st1 \<noteq> []" "last (effectStack st1) = x"
              using steady_stack[OF s1] l by simp_all
            from fe[OF x3 unmoved_fenced[OF k1] steady_tops[OF s1 t] l1] k1 show ?thesis
              by (auto intro: unmoved_trans)
          qed
        qed
      qed
    qed }
  { case 6 show ?case
    proof (intro allI impI)
      fix b st r st'
      assume a: "batch (Suc n) (TProg b) st = Some (r, st')" and o: "fenced H E st" and t: "tops st"
        and wb: "writes_only H b" and rb: "owned E st \<longrightarrow> reads_outside H b"
      let ?s1 = "st\<lparr>batchDepth := Suc (batchDepth st),
                    pending := (if batchDepth st = 0 then Some [] else pending st),
                    schedule := True\<rparr>"
      have o1: "fenced H E ?s1" using o by (simp add: fenced_def feeds_def apart_def)
      have t1: "tops ?s1" using t by (auto simp: tops_def split: option.splits)
      have ow1: "owned E ?s1 \<longrightarrow> reads_outside H b" using rb by (simp add: owned_def)
      from a obtain r2 st2 where x: "exec n b ?s1 = Some (r2, st2)"
        by (auto simp: Let_def simp del: drain.simps split: option.splits)
      from e[OF x o1 t1 wb ow1[THEN mp]] have "unmoved H E ?s1 st2" by simp
      then have k2: "unmoved H E st st2"
        by (simp add: unmoved_def runs_count_def)
      let ?s3 = "st2\<lparr>schedule := schedule st, batchDepth := batchDepth st2 - 1\<rparr>"
      let ?s4 = "?s3\<lparr>pending := None\<rparr>"
      have k3: "unmoved H E st ?s3"
        using k2 by (simp add: unmoved_def runs_count_def fenced_def feeds_def apart_def)
      have k4: "unmoved H E st ?s4"
        using k2 by (simp add: unmoved_def runs_count_def fenced_def feeds_def apart_def)
      from a x have "st' = ?s3 \<or> st' = ?s4
          \<or> (\<exists>ps. pending st2 = Some ps \<and> drain n ps ?s4 = Some st')"
        by (auto simp: Let_def simp del: drain.simps split: option.splits if_splits)
      then show "unmoved H E st st'"
      proof (elim disjE exE conjE)
        fix ps assume p: "pending st2 = Some ps" and d: "drain n ps ?s4 = Some st'"
        from k2 p have "set ps \<inter> E = {}" by (simp add: unmoved_def fenced_def)
        then have "\<forall>e\<in>E. filter (\<lambda>x. x = e \<and> \<not> disposed (effects ?s4 x)) ps = []"
          by (auto simp: filter_empty_conv)
        with dr[OF d unmoved_fenced[OF k4]] have "unmoved H E ?s4 st'"
          by (simp add: unmoved_def)
        with k4 show ?thesis by (rule unmoved_trans)
      qed (use k3 k4 in auto)
    qed }
  { case 7 show ?case
    proof (intro allI impI)
      fix es st st' assume a: "drain (Suc n) es st = Some st'" and o: "fenced H E st"
      show "fenced H E st'
               \<and> (\<forall>e\<in>E. runs_count e st'
                     = runs_count e st + length (filter (\<lambda>x. x = e \<and> \<not> disposed (effects st x)) es))"
      proof (cases es)
        case Nil
        with a o show ?thesis by auto
      next
        case (Cons x xs)
        with a obtain st1 where x1: "effect n x st = Some st1" and x2: "drain n xs st1 = Some st'"
          by (auto simp del: effect.simps split: option.splits)
        from ef[OF x1 o] have o1: "fenced H E st1"
          and c1: "\<forall>e\<in>E. runs_count e st1
                     = runs_count e st + (if x = e \<and> \<not> disposed (effects st x) then 1 else 0)"
          by simp_all
        have d1: "\<forall>y. disposed (effects st1 y) = disposed (effects st y)"
          using steady_all(4)[rule_format, OF x1] by (simp add: steady_def)
        from dr[OF x2 o1] d1 have o2: "fenced H E st'"
          and c2: "\<forall>e\<in>E. runs_count e st'
                     = runs_count e st1 + length (filter (\<lambda>x. x = e \<and> \<not> disposed (effects st x)) xs)"
          by simp_all
        from o2 c1 c2 Cons show ?thesis by auto
      qed
    qed }
qed

lemma runs_of_scheduled [simp]: "runs_of (map Scheduled ss) = []"
  by (induction ss) simp_all

lemma count_one:
  "distinct xs \<Longrightarrow> e \<in> set xs \<Longrightarrow> length (filter (\<lambda>x. x = e \<and> P x) xs) = (if P e then 1 else 0)"
proof (induction xs)
  case Nil
  then show ?case by simp
next
  case (Cons x xs)
  show ?case
  proof (cases "x = e")
    case True
    with Cons.prems have "e \<notin> set xs" by simp
    then have "filter (\<lambda>x. x = e \<and> P x) xs = []" by (auto simp: filter_empty_conv)
    with True show ?thesis by simp
  next
    case False
    with Cons show ?thesis by simp
  qed
qed

section \<open>Properties of async resources\<close>

lemma untouched_refl [simp]: "untouched st st"
  by (simp add: untouched_def)

lemma untouched_trans: "untouched a b \<Longrightarrow> untouched b c \<Longrightarrow> untouched a c"
  by (simp add: untouched_def)

lemma batch_skip:
  "\<exists>st'. batch (Suc (Suc n)) (TProg (Ret VUndef)) st = Some (Returned VUndef, st') \<and> untouched st st'"
  by (simp add: Let_def untouched_def)

lemma settle_aborted:
  assumes "t \<in> set (aborted res)"
  shows "\<exists>r st'. settle (Suc (Suc n)) res t out st = Some (r, st') \<and> untouched st st'"
proof -
  have b: "\<exists>st'. batch (Suc (Suc n)) (TProg (unless_aborted res t p)) s = Some (Returned VUndef, st')
                \<and> untouched s st'" for p s
    using assms batch_skip[of n s] by (simp add: unless_aborted_def del: batch.simps)
  show ?thesis
  proof (cases out)
    case (Resolved v)
    from b obtain st1
      where 1: "batch (Suc (Suc n)) (TProg (unless_aborted res t (Write (dataS res) v (Ret VUndef)))) st
                 = Some (Returned VUndef, st1)" "untouched st st1" by blast
    from b obtain st3
      where 3: "batch (Suc (Suc n))
                  (TProg (unless_aborted res t (Write (loadingS res) (VBool False) (Ret VUndef)))) st1
                 = Some (Returned VUndef, st3)" "untouched st1 st3" by blast
    from 1 3 Resolved
    have "settle (Suc (Suc n)) res t out st = Some (Returned VUndef, st3)" "untouched st st3"
      by (simp_all add: settle_def untouched_def del: batch.simps)
    then show ?thesis by blast
  next
    case (Rejected err)
    from b obtain st2
      where 2: "batch (Suc (Suc n)) (TProg (unless_aborted res t (Write (errorS res) err (Ret VUndef)))) st
                 = Some (Returned VUndef, st2)" "untouched st st2" by blast
    from b obtain st3
      where 3: "batch (Suc (Suc n))
                  (TProg (unless_aborted res t (Write (loadingS res) (VBool False) (Ret VUndef)))) st2
                 = Some (Returned VUndef, st3)" "untouched st2 st3" by blast
    from 2 3 Rejected
    have "settle (Suc (Suc n)) res t out st = Some (Returned VUndef, st3)" "untouched st st3"
      by (simp_all add: settle_def untouched_def del: batch.simps)
    then show ?thesis by blast
  qed
qed

lemma res_dispose_fields [simp]:
  "started (res_dispose res) = started res" "controller (res_dispose res) = controller res"
  "dataS (res_dispose res) = dataS res" "loadingS (res_dispose res) = loadingS res"
  "errorS (res_dispose res) = errorS res"
  "set (aborted (res_dispose res)) = set (aborted res) \<union> set_option (controller res)"
  by (auto simp: res_dispose_def abort_def set_add_def split: option.splits)

lemma no_refetch_dispose [simp]: "no_refetch (res_dispose res) es = no_refetch res es"
  by (simp add: no_refetch_def cong: res_event.case_cong)

lemma res_step_superseded:
  "res_step n ev (res, st) = Some (res', st') \<Longrightarrow> superseded_aborted res \<Longrightarrow> superseded_aborted res'"
  by (cases ev) (auto simp: res_step_def refetch_start_def Let_def superseded_aborted_def less_Suc_eq)

lemma res_run_superseded:
  "res_run n es (res, st) = Some (res', st') \<Longrightarrow> superseded_aborted res \<Longrightarrow> superseded_aborted res'"
proof (induction es arbitrary: res st)
  case Nil
  then show ?case by simp
next
  case (Cons ev es)
  from Cons.prems(1) obtain res1 st1 where s: "res_step n ev (res, st) = Some (res1, st1)"
    and r: "res_run n es (res1, st1) = Some (res', st')"
    by (auto split: option.splits)
  from Cons.IH[OF r res_step_superseded[OF s Cons.prems(2)]] show ?case .
qed

lemma res_run_all_aborted:
  "all_aborted res \<Longrightarrow> no_refetch res es \<Longrightarrow>
     \<exists>res' st'. res_run (Suc (Suc m)) es (res, st) = Some (res', st') \<and> untouched st st'
        \<and> dataS res' = dataS res \<and> loadingS res' = loadingS res \<and> errorS res' = errorS res"
proof (induction es arbitrary: res st)
  case Nil
  then show ?case by simp
next
  case (Cons ev es)
  from Cons.prems(2) have nr: "no_refetch res es" by (simp add: no_refetch_def)
  show ?case
  proof (cases ev)
    case Refetch
    with Cons.prems(2) show ?thesis by (simp add: no_refetch_def)
  next
    case Dispose
    have "all_aborted (res_dispose res)" "no_refetch (res_dispose res) es"
      using Cons.prems(1) nr by (auto simp: all_aborted_def)
    from Cons.IH[OF this, of st] Dispose show ?thesis
      by (auto simp: res_step_def)
  next
    case (Settle t out)
    with Cons.prems have "t \<in> set (aborted res)"
      by (simp add: no_refetch_def all_aborted_def)
    from settle_aborted[OF this, of m out st] obtain r st1
      where s: "settle (Suc (Suc m)) res t out st = Some (r, st1)" and u: "untouched st st1"
      by blast
    from Cons.IH[OF Cons.prems(1) nr, of st1] obtain res' st'
      where "res_run (Suc (Suc m)) es (res, st1) = Some (res', st')" "untouched st1 st'"
        "dataS res' = dataS res" "loadingS res' = loadingS res" "errorS res' = errorS res"
      by blast
    with s u Settle untouched_trans[OF u] show ?thesis
      by (auto simp: res_step_def)
  qed
qed

section \<open>Properties of hydration\<close>

subsection \<open>Moving a child\<close>








lemma nodesMatch_element: "nodesMatch d (VElement ty props cs) x \<Longrightarrow> nodeType (nodes d x) = ElementNode"
  by (simp add: nodesMatch_def)

subsection \<open>Objects without a type\<close>

lemma create_typeless_never_returns: "createDOMElementForHydration n (VObject a b) d = None"
  by (induction n) simp_all

subsection \<open>The keyed branch of the loop over the children\<close>




subsection \<open>Writes of an equal value\<close>

text \<open>
  C3. A write whose candidate value (the literal, or the updater applied to the stored
  value) is \<open>Object.is\<close>-equal to the stored value returns at once and leaves the whole state
  as it was: the stored value, every subscriber set, the pending set and the record of
  scheduled and run effects. No subscriber is scheduled or called.
\<close>

theorem write_equal_is_identity:
  assumes "candidate nxt (sig_value (signals st s)) = sig_value (signals st s)"
  shows "setter (Suc n) s nxt st = Some (Returned VUndef, st)"
  using assms by (simp add: setter_def)

theorem write_equal_is_identity_witness:
  "candidate (Literal (VNum 5)) (sig_value (signals st_five 0)) = sig_value (signals st_five 0)
   \<and> setter (Suc 0) 0 (Literal (VNum 5)) st_five = Some (Returned VUndef, st_five)
   \<and> trace st_five = []"
proof -
  have h: "candidate (Literal (VNum 5)) (sig_value (signals st_five 0)) = sig_value (signals st_five 0)"
    by (simp add: candidate_def st_five_def rt0_def)
  show ?thesis
    using h write_equal_is_identity [OF h, of 0] by (simp add: st_five_def rt0_def)
qed



subsection \<open>An effect that throws\<close>

text \<open>
  C7. The exception of an effect is caught and logged, and the stack is popped. What the
  \<open>finally\<close> block assigns to \<open>currentEffect\<close> is the top of the popped stack, which is not
  the previous current effect when the run started inside \<open>untrack\<close>. In \<open>untrack_script\<close>
  the last statement re-runs the outer effect, whose \<open>untrack\<close> block writes \<open>a\<close>; the write
  calls the throwing effect with \<open>currentEffect = null\<close>, and when it has returned the
  outer effect is current again, inside \<open>untrack\<close>: the read of \<open>c\<close> that follows subscribes
  it. The second part calls the throwing effect in that situation directly.
\<close>

theorem throwing_effect_inside_untrack:
  "final (\<lambda>st. (subscribers (signals st 2), effectStack st, currentEffect st))
     (script untrack_script rt0) = Some ([1], [], None)
   \<and> (effectStack inside_untrack, currentEffect inside_untrack) = ([1], None)
   \<and> map_option (\<lambda>st. (trace st, effectStack st, currentEffect st)) (effect 5 0 inside_untrack)
       = Some ([Ran 0, Logged (VStr ''boom'')], [1], Some 1)"
  by code_simp

subsection \<open>Batches\<close>

text \<open>
  C2, as the specification states it: the writes inside one batch run a common subscriber
  exactly once. In \<open>diamond_script\<close> an effect reads a signal and a memo of that signal, and
  a batch writes the signal once. The drain calls the memo's effect, whose write to the
  memo's signal opens a batch of its own (the scheduler was restored before the drain), and
  that batch runs the subscriber; then the drain calls the subscriber again: two runs. In
  \<open>same_value_script\<close> the batch writes the value that the signal holds, and the subscriber
  does not run at all.
\<close>

theorem batch_runs_subscriber_twice_or_never:
  "map (\<lambda>k. final (\<lambda>st. runs_of (trace st)) (script (take k diamond_script) rt0)) [3, 4]
     = [Some [0, 1], Some [0, 1, 0, 1, 1]]
   \<and> map (\<lambda>k. final (\<lambda>st. runs_of (trace st)) (script (take k same_value_script) rt0)) [2, 3]
     = [Some [0], Some [0]]"
  by code_simp

text \<open>
  C2, amended. Let \<open>fn\<close> be user code that reads, writes and updates signals and nests
  batches and \<open>untrack\<close> blocks (it creates no effect and does not call the scheduler that
  \<open>batch\<close> passes to it), given to \<open>batch\<close> while no batch is open.

  \<^item> \<open>fn\<close> runs to its end, and what is recorded meanwhile is one scheduling after the
    other, \<open>ss\<close>: no effect runs while \<open>fn\<close> runs, and every write that changes the value
    of a signal has scheduled all subscribers of the signal. A write that does not change
    the value returns at once and schedules nothing.
  \<^item> Whenever the batch completes, it completes as \<open>fn\<close> did (an exception of \<open>fn\<close> is
    thrown again after the drain), and the drain was: one call of each distinct scheduled
    effect, in the order in which the effects were first scheduled, however often they
    were scheduled again, and every call started with no batch open, because the scheduler
    is restored before the drain.
  \<^item> A call of an effect that starts with no batch open ends with no batch open; it adds a
    run of the effect to the record unless the effect is disposed, and then it changes
    nothing. A write that changes the value of a signal when no batch is open adds a run
    of every subscriber that is not disposed before it returns: the writes of an effect
    that the drain calls are not coalesced.
  \<^item> If the scheduled effects (their functions and cleanups) call no setter, the batch does
    complete, and after the schedulings it records one run of each scheduled effect that
    is not disposed, in the order of first scheduling, and no scheduling; an effect that
    subscribes to a signal whose value the batch has changed is among them, so it runs
    exactly once.
  \<^item> If \<open>batch\<close> is called outside every effect, all that the effects of the program write
    are signals of a set \<open>H\<close>, and the scheduled effects read no signal of \<open>H\<close> and subscribe
    to none, then whenever the batch completes, each scheduled effect that is not disposed
    has run exactly once and a disposed one not at all, whatever other effects the writes
    of the drain have run. The effect of a memo is of this kind: it writes the memo's own
    signal only, which it does not read.
\<close>

theorem batch_runs_scheduled_once:
  "(batchDepth st = 0 \<and> \<not> schedule st \<longrightarrow>
      (\<exists>n r st2 ss.
          exec n f (opened st) = Some (r, st2) \<and> defers (opened st) st2 ss
          \<and> (\<forall>m r' st'. batch m (TProg f) st = Some (r', st')
                \<longrightarrow> r' = r \<and> drained (firsts ss) (restored st st2) st')
          \<and> ((\<forall>e\<in>set ss. quiet_effect (effects st e)) \<longrightarrow>
                (\<exists>m st' tr.
                    batch m (TProg f) st = Some (r, st')
                    \<and> trace st' = trace st @ map Scheduled ss @ tr
                    \<and> scheduled_of tr = []
                    \<and> runs_of tr = filter (\<lambda>e. \<not> disposed (effects st e)) (firsts ss)
                    \<and> (\<forall>s e. sig_value (signals st' s) \<noteq> sig_value (signals st s)
                           \<and> e \<in> set (subscribers (signals st s)) \<and> \<not> disposed (effects st e)
                         \<longrightarrow> count_list (runs_of tr) e = 1)))
          \<and> (currentEffect st = None \<and> feeds H st \<and> apart H (set ss) st \<longrightarrow>
                (\<forall>m r' st'. batch m (TProg f) st = Some (r', st') \<longrightarrow>
                    (\<forall>e\<in>set ss. runs_count e st'
                        = runs_count e st + (if disposed (effects st e) then 0 else 1))))))
   \<and> (sig_value (signals st0 s0) = v0 \<longrightarrow> write_sig (Suc k) s0 v0 st0 = Some (Returned VUndef, st0))
   \<and> (unbatched st0 \<and> effect k e0 st0 = Some st1
        \<longrightarrow> unbatched st1
            \<and> (if disposed (effects st0 e0) then st1 = st0
                else runs_count e0 st0 < runs_count e0 st1))
   \<and> (unbatched st0 \<and> sig_value (signals st0 s0) \<noteq> v0 \<and> write_sig k s0 v0 st0 = Some (res, st1)
        \<and> e0 \<in> set (subscribers (signals st0 s0)) \<and> \<not> disposed (effects st0 e0)
        \<longrightarrow> runs_count e0 st0 < runs_count e0 st1)"
proof -
  have c1: "batchDepth st = 0 \<and> \<not> schedule st \<longrightarrow>
      (\<exists>n r st2 ss.
          exec n f (opened st) = Some (r, st2) \<and> defers (opened st) st2 ss
          \<and> (\<forall>m r' st'. batch m (TProg f) st = Some (r', st')
                \<longrightarrow> r' = r \<and> drained (firsts ss) (restored st st2) st')
          \<and> ((\<forall>e\<in>set ss. quiet_effect (effects st e)) \<longrightarrow>
                (\<exists>m st' tr.
                    batch m (TProg f) st = Some (r, st')
                    \<and> trace st' = trace st @ map Scheduled ss @ tr
                    \<and> scheduled_of tr = []
                    \<and> runs_of tr = filter (\<lambda>e. \<not> disposed (effects st e)) (firsts ss)
                    \<and> (\<forall>s e. sig_value (signals st' s) \<noteq> sig_value (signals st s)
                           \<and> e \<in> set (subscribers (signals st s)) \<and> \<not> disposed (effects st e)
                         \<longrightarrow> count_list (runs_of tr) e = 1)))
          \<and> (currentEffect st = None \<and> feeds H st \<and> apart H (set ss) st \<longrightarrow>
                (\<forall>m r' st'. batch m (TProg f) st = Some (r', st') \<longrightarrow>
                    (\<forall>e\<in>set ss. runs_count e st'
                        = runs_count e st + (if disposed (effects st e) then 0 else 1)))))"
  proof
    assume top: "batchDepth st = 0 \<and> \<not> schedule st"
    have o: "opened st = st\<lparr>batchDepth := Suc (batchDepth st),
                   pending := (if batchDepth st = 0 then Some [] else pending st),
                   schedule := True\<rparr>"
      by (simp add: opened_def)
    have "deferred (opened st)" using top by (simp add: deferred_def opened_def)
    from exec_deferred[OF this] obtain n1 r st2 ss
      where ex: "exec n1 f (opened st) = Some (r, st2)" and d: "defers (opened st) st2 ss" by blast
    have p2: "pending st2 = Some (firsts ss)"
      using d top by (simp add: defers_def pending_set_is_firsts opened_def)
    have d2: "batchDepth st2 = 1" using d top by (simp add: defers_def opened_def)
    let ?st4 = "restored st st2"
    have u4: "unbatched ?st4" using top d2 by (simp add: unbatched_def restored_def)
    have gd: "r' = r \<and> (\<exists>m'. drain m' (firsts ss) ?st4 = Some st')"
      if b: "batch m (TProg f) st = Some (r', st')" for m r' st'
    proof -
      from b obtain m' where m: "m = Suc m'" by (cases m) auto
      from b m obtain r2 s2 where x: "exec m' f (opened st) = Some (r2, s2)"
        by (auto simp: Let_def o simp del: drain.simps split: option.splits)
      from exec_mono[OF x, of "max m' n1"] exec_mono[OF ex, of "max m' n1"]
      have e2: "r2 = r" "s2 = st2" by simp_all
      from b m x e2 p2 d2 have "r' = r" and "drain m' (firsts ss) ?st4 = Some st'"
        by (auto simp: Let_def o restored_def simp del: drain.simps split: option.splits)
      then show ?thesis by blast
    qed
    have g: "\<forall>m r' st'. batch m (TProg f) st = Some (r', st')
                \<longrightarrow> r' = r \<and> drained (firsts ss) (restored st st2) st'"
      using gd drain_drained[OF u4] by blast
    have h: "\<exists>m st' tr.
                    batch m (TProg f) st = Some (r, st')
                    \<and> trace st' = trace st @ map Scheduled ss @ tr
                    \<and> scheduled_of tr = []
                    \<and> runs_of tr = filter (\<lambda>e. \<not> disposed (effects st e)) (firsts ss)
                    \<and> (\<forall>s e. sig_value (signals st' s) \<noteq> sig_value (signals st s)
                           \<and> e \<in> set (subscribers (signals st s)) \<and> \<not> disposed (effects st e)
                         \<longrightarrow> count_list (runs_of tr) e = 1)"
      if q: "\<forall>e\<in>set ss. quiet_effect (effects st e)"
    proof -
      have "\<forall>e\<in>set (firsts ss). quiet_effect (effects ?st4 e)"
        using q d by (simp add: defers_def restored_def opened_def)
      moreover have "idle ?st4" by (simp add: idle_def restored_def)
      ultimately obtain n2 st' tr
        where dr: "drain n2 (firsts ss) ?st4 = Some st'" and s: "settled ?st4 st' tr"
          and ru0: "runs_of tr = filter (\<lambda>e. \<not> disposed (effects ?st4 e)) (firsts ss)"
        using drain_quiet by blast
      let ?n = "max n1 n2"
      from exec_mono[OF ex, of ?n] drain_mono[OF dr, of ?n] p2 d2
      have b: "batch (Suc ?n) (TProg f) st = Some (r, st')"
        by (simp add: Let_def o restored_def)
      have t: "trace st' = trace st @ map Scheduled ss @ tr"
        using s d by (simp add: settled_def defers_def restored_def opened_def)
      have sc: "scheduled_of tr = []" using s by (simp add: settled_def)
      have ru: "runs_of tr = filter (\<lambda>e. \<not> disposed (effects st e)) (firsts ss)"
        using ru0 d by (simp add: defers_def restored_def opened_def)
      have "count_list (runs_of tr) e = 1"
        if "sig_value (signals st' s) \<noteq> sig_value (signals st s)"
          "e \<in> set (subscribers (signals st s))" "\<not> disposed (effects st e)" for s e
      proof -
        from that(1) s have "sig_value (signals st2 s) \<noteq> sig_value (signals (opened st) s)"
          by (simp add: settled_def restored_def opened_def)
        with d that(2) have "e \<in> set ss" by (auto simp: defers_def opened_def)
        with that(3) ru show ?thesis by (simp add: count_distinct)
      qed
      with b t sc ru show ?thesis by blast
    qed
    have w: "\<forall>m r' st'. batch m (TProg f) st = Some (r', st') \<longrightarrow>
                    (\<forall>e\<in>set ss. runs_count e st'
                        = runs_count e st + (if disposed (effects st e) then 0 else 1))"
      if c: "currentEffect st = None \<and> feeds H st \<and> apart H (set ss) st"
    proof (intro allI impI ballI)
      fix m r' st' e assume b: "batch m (TProg f) st = Some (r', st')" and e: "e \<in> set ss"
      from gd[OF b] obtain m' where dr: "drain m' (firsts ss) ?st4 = Some st'" by blast
      from c d have "\<forall>s. subscribers (signals st2 s) = subscribers (signals st s)"
        by (simp add: defers_def opened_def)
      with c d have "fenced H (set ss) ?st4"
        by (simp add: fenced_def feeds_def apart_def defers_def restored_def opened_def)
      from fenced_all(7)[rule_format, OF dr this] e
      have "runs_count e st'
              = runs_count e ?st4 + length (filter (\<lambda>x. x = e \<and> \<not> disposed (effects ?st4 x)) (firsts ss))"
        by blast
      moreover have "runs_count e ?st4 = runs_count e st"
        using d by (simp add: runs_count_def defers_def restored_def opened_def)
      moreover have "length (filter (\<lambda>x. x = e \<and> \<not> disposed (effects ?st4 x)) (firsts ss))
              = (if \<not> disposed (effects ?st4 e) then 1 else 0)"
        using e by (intro count_one) simp_all
      moreover have "effects ?st4 = effects st"
        using d by (simp add: defers_def restored_def opened_def)
      ultimately show "runs_count e st' = runs_count e st + (if disposed (effects st e) then 0 else 1)"
        by simp
    qed
    from ex d g h w show "(\<exists>n r st2 ss.
          exec n f (opened st) = Some (r, st2) \<and> defers (opened st) st2 ss
          \<and> (\<forall>m r' st'. batch m (TProg f) st = Some (r', st')
                \<longrightarrow> r' = r \<and> drained (firsts ss) (restored st st2) st')
          \<and> ((\<forall>e\<in>set ss. quiet_effect (effects st e)) \<longrightarrow>
                (\<exists>m st' tr.
                    batch m (TProg f) st = Some (r, st')
                    \<and> trace st' = trace st @ map Scheduled ss @ tr
                    \<and> scheduled_of tr = []
                    \<and> runs_of tr = filter (\<lambda>e. \<not> disposed (effects st e)) (firsts ss)
                    \<and> (\<forall>s e. sig_value (signals st' s) \<noteq> sig_value (signals st s)
                           \<and> e \<in> set (subscribers (signals st s)) \<and> \<not> disposed (effects st e)
                         \<longrightarrow> count_list (runs_of tr) e = 1)))
          \<and> (currentEffect st = None \<and> feeds H st \<and> apart H (set ss) st \<longrightarrow>
                (\<forall>m r' st'. batch m (TProg f) st = Some (r', st') \<longrightarrow>
                    (\<forall>e\<in>set ss. runs_count e st'
                        = runs_count e st + (if disposed (effects st e) then 0 else 1)))))"
      by blast
  qed
  have c2: "sig_value (signals st0 s0) = v0 \<longrightarrow> write_sig (Suc k) s0 v0 st0 = Some (Returned VUndef, st0)"
    by simp
  have c3: "unbatched st0 \<and> effect k e0 st0 = Some st1
        \<longrightarrow> unbatched st1
            \<and> (if disposed (effects st0 e0) then st1 = st0
                else runs_count e0 st0 < runs_count e0 st1)"
  proof
    assume a: "unbatched st0 \<and> effect k e0 st0 = Some st1"
    then have x: "effect k e0 st0 = Some st1" by simp
    from steady_all(4)[rule_format, OF x] a have "unbatched st1" by (simp add: steady_def)
    moreover have "st1 = st0" if "disposed (effects st0 e0)"
      using that x by (cases k) auto
    moreover have "runs_count e0 st0 < runs_count e0 st1" if "\<not> disposed (effects st0 e0)"
      using effect_runs[OF that x] .
    ultimately show "unbatched st1
            \<and> (if disposed (effects st0 e0) then st1 = st0
                else runs_count e0 st0 < runs_count e0 st1)" by simp
  qed
  have c4: "unbatched st0 \<and> sig_value (signals st0 s0) \<noteq> v0 \<and> write_sig k s0 v0 st0 = Some (res, st1)
        \<and> e0 \<in> set (subscribers (signals st0 s0)) \<and> \<not> disposed (effects st0 e0)
        \<longrightarrow> runs_count e0 st0 < runs_count e0 st1"
    using write_runs[of st0 s0 v0 k res st1 e0] by blast
  from c1 c2 c3 c4 show ?thesis
    by (intro conjI) assumption+
qed

theorem batch_runs_scheduled_once_witness:
  "batchDepth st_trio = 0 \<and> \<not> schedule st_trio
   \<and> quiet_effect (effects st_trio 0) \<and> quiet_effect (effects st_trio 1)
   \<and> \<not> quiet_effect (effects st_trio 2)
   \<and> (\<exists>n r st2.
         exec n nested_writes (opened st_trio) = Some (r, st2)
         \<and> defers (opened st_trio) st2 [0, 1, 1, 0, 1]
         \<and> (\<exists>st'. batch 30 (TProg nested_writes) st_trio = Some (r, st')
               \<and> drained [0, 1] (restored st_trio st2) st')
         \<and> (\<exists>m st' tr.
               batch m (TProg nested_writes) st_trio = Some (r, st')
               \<and> trace st' = trace st_trio @ map Scheduled [0, 1, 1, 0, 1] @ tr
               \<and> scheduled_of tr = [] \<and> runs_of tr = [0, 1]))
   \<and> final (\<lambda>st. (trace st, map (\<lambda>s. sig_value (signals st s)) [0, 1]))
         (batch 30 (TProg nested_writes) st_trio)
       = Some ([Scheduled 0, Scheduled 1, Scheduled 1, Scheduled 0, Scheduled 1, Ran 0, Ran 1],
               [VNum 2, VNum 1])
   \<and> write_sig (Suc 0) 0 (VNum 0) st_trio = Some (Returned VUndef, st_trio)
   \<and> unbatched st_trio
   \<and> (\<exists>st1. effect 30 2 st_trio = Some st1 \<and> unbatched st1
         \<and> runs_count 2 st_trio < runs_count 2 st1)
   \<and> (\<exists>res st1. write_sig 30 2 (VNum 9) st_trio = Some (res, st1)
         \<and> runs_count 2 st_trio < runs_count 2 st1)
   \<and> final (\<lambda>st. runs_of (trace st)) (write_sig 30 2 (VNum 9) st_trio) = Some [2, 0, 1]
   \<and> batchDepth st_chain = 0 \<and> \<not> schedule st_chain \<and> currentEffect st_chain = None
   \<and> \<not> quiet_effect (effects st_chain 0)
   \<and> feeds {1} st_chain \<and> apart {1} {0} st_chain
   \<and> (\<exists>n r st2. exec n write_two (opened st_chain) = Some (r, st2)
         \<and> defers (opened st_chain) st2 [0])
   \<and> (\<exists>r st'. batch 30 (TProg write_two) st_chain = Some (r, st')
         \<and> runs_count 0 st' = runs_count 0 st_chain + 1)
   \<and> final (\<lambda>st. runs_of (trace st)) (batch 30 (TProg write_two) st_chain) = Some [0, 1]"
proof -
  have h1: "batchDepth st_trio = 0" and h2: "\<not> schedule st_trio" and u: "unbatched st_trio"
    by (simp_all add: st_trio_def rt0_def unbatched_def)
  have q0: "quiet_effect (effects st_trio 0)" and q1: "quiet_effect (effects st_trio 1)"
    and q2: "\<not> quiet_effect (effects st_trio 2)"
    by (simp_all add: st_trio_def quiet_effect_def)
  have inj: "inj Scheduled" by (simp add: inj_def)
  note t = batch_runs_scheduled_once [where st = st_trio and f = nested_writes and H = "{}",
      THEN conjunct1, THEN mp, OF conjI[OF h1 h2]]
  from t obtain n r st2 ss
    where a: "exec n nested_writes (opened st_trio) = Some (r, st2)"
      and b: "defers (opened st_trio) st2 ss"
      and c: "\<forall>m r' st'. batch m (TProg nested_writes) st_trio = Some (r', st')
                \<longrightarrow> r' = r \<and> drained (firsts ss) (restored st_trio st2) st'"
      and d: "(\<forall>e\<in>set ss. quiet_effect (effects st_trio e)) \<longrightarrow>
                (\<exists>m st' tr.
                    batch m (TProg nested_writes) st_trio = Some (r, st')
                    \<and> trace st' = trace st_trio @ map Scheduled ss @ tr
                    \<and> scheduled_of tr = []
                    \<and> runs_of tr = filter (\<lambda>e. \<not> disposed (effects st_trio e)) (firsts ss)
                    \<and> (\<forall>s e. sig_value (signals st' s) \<noteq> sig_value (signals st_trio s)
                           \<and> e \<in> set (subscribers (signals st_trio s)) \<and> \<not> disposed (effects st_trio e)
                         \<longrightarrow> count_list (runs_of tr) e = 1))"
    by (elim exE conjE) (rule that)
  have "map_option (\<lambda>x. trace (snd x)) (exec 30 nested_writes (opened st_trio))
          = Some (map Scheduled [0, 1, 1, 0, 1])"
    by code_simp
  then obtain r0 s0 where a0: "exec 30 nested_writes (opened st_trio) = Some (r0, s0)"
    and t0: "trace s0 = map Scheduled [0, 1, 1, 0, 1]" by auto
  from exec_mono[OF a, of "max n 30"] exec_mono[OF a0, of "max n 30"]
  have "s0 = st2" by simp
  moreover have "trace (opened st_trio) = []"
    by (simp add: opened_def st_trio_def rt0_def)
  ultimately have "map Scheduled ss = map Scheduled [0, 1, 1, 0, 1]"
    using b t0 by (simp add: defers_def)
  with inj have ss: "ss = [0, 1, 1, 0, 1]"
    by (simp only: inj_map_eq_map)
  have f: "firsts ss = [0, 1]" by (simp add: ss)
  have nd: "filter (\<lambda>e. \<not> disposed (effects st_trio e)) [0, 1] = [0, 1]"
    by (simp add: st_trio_def)
  from q0 q1 have "\<forall>e\<in>set ss. quiet_effect (effects st_trio e)" by (simp add: ss)
  with d f nd obtain m st' tr
    where g: "batch m (TProg nested_writes) st_trio = Some (r, st')"
      "trace st' = trace st_trio @ map Scheduled ss @ tr"
      "scheduled_of tr = []" "runs_of tr = [0, 1]" by auto
  have ev: "final (\<lambda>st. (trace st, map (\<lambda>s. sig_value (signals st s)) [0, 1]))
         (batch 30 (TProg nested_writes) st_trio)
       = Some ([Scheduled 0, Scheduled 1, Scheduled 1, Scheduled 0, Scheduled 1, Ran 0, Ran 1],
               [VNum 2, VNum 1])"
    by code_simp
  then obtain r3 s3 where b3: "batch 30 (TProg nested_writes) st_trio = Some (r3, s3)"
    by (auto simp: final_def)
  from c b3 f have l: "batch 30 (TProg nested_writes) st_trio = Some (r, s3)"
    "drained [0, 1] (restored st_trio st2) s3" by auto
  from batch_runs_scheduled_once [where ?st0.0 = st_trio and ?s0.0 = 0 and ?v0.0 = "VNum 0" and k = 0]
  have w0: "write_sig (Suc 0) 0 (VNum 0) st_trio = Some (Returned VUndef, st_trio)"
    by (simp add: st_trio_def)
  have "\<not> Option.is_none (effect 30 2 st_trio)" by code_simp
  then obtain s4 where e4: "effect 30 2 st_trio = Some s4"
    by (auto simp: Option.is_none_def)
  have nd2: "\<not> disposed (effects st_trio 2)" by (simp add: st_trio_def)
  from u e4 nd2 batch_runs_scheduled_once [where ?st0.0 = st_trio and ?e0.0 = 2 and k = 30 and ?st1.0 = s4]
  have c4: "unbatched s4" "runs_count 2 st_trio < runs_count 2 s4" by simp_all
  have rw: "final (\<lambda>st. runs_of (trace st)) (write_sig 30 2 (VNum 9) st_trio) = Some [2, 0, 1]"
    by code_simp
  then obtain r5 s5 where w5: "write_sig 30 2 (VNum 9) st_trio = Some (r5, s5)"
    by (auto simp: final_def)
  have pre: "sig_value (signals st_trio 2) \<noteq> VNum 9" "2 \<in> set (subscribers (signals st_trio 2))"
    by (simp_all add: st_trio_def)
  from u pre w5 nd2 batch_runs_scheduled_once [where ?st0.0 = st_trio and ?s0.0 = 2 and ?v0.0 = "VNum 9"
      and k = 30 and res = r5 and ?st1.0 = s5 and ?e0.0 = 2]
  have c5: "runs_count 2 st_trio < runs_count 2 s5" by blast
  from a b[unfolded ss] l g[unfolded ss] have big: "\<exists>n r st2.
         exec n nested_writes (opened st_trio) = Some (r, st2)
         \<and> defers (opened st_trio) st2 [0, 1, 1, 0, 1]
         \<and> (\<exists>st'. batch 30 (TProg nested_writes) st_trio = Some (r, st')
               \<and> drained [0, 1] (restored st_trio st2) st')
         \<and> (\<exists>m st' tr.
               batch m (TProg nested_writes) st_trio = Some (r, st')
               \<and> trace st' = trace st_trio @ map Scheduled [0, 1, 1, 0, 1] @ tr
               \<and> scheduled_of tr = [] \<and> runs_of tr = [0, 1])"
    by blast
  have e4': "\<exists>st1. effect 30 2 st_trio = Some st1 \<and> unbatched st1
         \<and> runs_count 2 st_trio < runs_count 2 st1"
    using e4 c4 by blast
  have w5': "\<exists>res st1. write_sig 30 2 (VNum 9) st_trio = Some (res, st1)
         \<and> runs_count 2 st_trio < runs_count 2 st1"
    using w5 c5 by blast
  have k1: "batchDepth st_chain = 0" and k2: "\<not> schedule st_chain"
    and k3: "currentEffect st_chain = None"
    by (simp_all add: st_chain_def rt0_def)
  have k4: "\<not> quiet_effect (effects st_chain 0)"
    by (simp add: st_chain_def quiet_effect_def memo_body_def) (metis val.distinct(1))
  have k5: "feeds {1} st_chain"
    by (simp add: feeds_def st_chain_def rt0_def init_effect_def memo_body_def)
  have k6: "apart {1} {0} st_chain"
    by (simp add: apart_def st_chain_def rt0_def init_effect_def memo_body_def)
  have nd0: "\<not> disposed (effects st_chain 0)" by (simp add: st_chain_def)
  note t' = batch_runs_scheduled_once [where st = st_chain and f = write_two and H = "{1}",
      THEN conjunct1, THEN mp, OF conjI[OF k1 k2]]
  from t' obtain n' r' st2' ss'
    where a': "exec n' write_two (opened st_chain) = Some (r', st2')"
      and b': "defers (opened st_chain) st2' ss'"
      and w': "currentEffect st_chain = None \<and> feeds {1} st_chain \<and> apart {1} (set ss') st_chain \<longrightarrow>
                (\<forall>m r'' st'. batch m (TProg write_two) st_chain = Some (r'', st') \<longrightarrow>
                    (\<forall>e\<in>set ss'. runs_count e st'
                        = runs_count e st_chain + (if disposed (effects st_chain e) then 0 else 1)))"
    by (elim exE conjE) (rule that)
  have "map_option (\<lambda>x. trace (snd x)) (exec 30 write_two (opened st_chain))
          = Some (map Scheduled [0])"
    by code_simp
  then obtain r6 s6 where a6: "exec 30 write_two (opened st_chain) = Some (r6, s6)"
    and t6: "trace s6 = map Scheduled [0]" by auto
  from exec_mono[OF a', of "max n' 30"] exec_mono[OF a6, of "max n' 30"]
  have "s6 = st2'" by simp
  moreover have "trace (opened st_chain) = []"
    by (simp add: opened_def st_chain_def rt0_def)
  ultimately have "map Scheduled ss' = map Scheduled [0]"
    using b' t6 by (simp add: defers_def)
  with inj have ss': "ss' = [0]"
    by (simp only: inj_map_eq_map)
  have rc: "final (\<lambda>st. runs_of (trace st)) (batch 30 (TProg write_two) st_chain) = Some [0, 1]"
    by code_simp
  then obtain r7 s7 where b7: "batch 30 (TProg write_two) st_chain = Some (r7, s7)"
    by (auto simp: final_def)
  from w' k3 k5 k6 b7 nd0 have c7: "runs_count 0 s7 = runs_count 0 st_chain + 1"
    by (simp add: ss')
  from a' b'[unfolded ss'] have ch1: "\<exists>n r st2. exec n write_two (opened st_chain) = Some (r, st2)
         \<and> defers (opened st_chain) st2 [0]"
    by blast
  from b7 c7 have ch2: "\<exists>r st'. batch 30 (TProg write_two) st_chain = Some (r, st')
         \<and> runs_count 0 st' = runs_count 0 st_chain + 1"
    by blast
  from h1 h2 q0 q1 q2 big ev w0 u e4' w5' rw k1 k2 k3 k4 k5 k6 ch1 ch2 rc show ?thesis
    by (intro conjI) assumption+
qed

subsection \<open>Memos\<close>

text \<open>
  C6. The setter of a memo's signal is in scope of nothing but the function that \<open>knotMemo\<close>
  hands to \<open>onClimax\<close> (\<open>knotMemo\<close> returns the getter only): user code and the other effects
  never call it. Then the signal is written only from inside the memo's own effect: when
  user code, or a write through another signal's setter, ends and no run of the memo's
  effect has been added to the record, the memo's signal holds the value it held, and the
  other effects still never call its setter; \<open>knotMemo\<close> itself creates the signal and
  leaves the other effects as they are. The memo's function calls the setter only when the
  memo is not initialised or the recomputed value is not the cached one: when the memo is
  initialised and the computation returns the cached value, the function ends in the very
  state in which the computation ended. In \<open>memo_script\<close> (\<open>m = s % 2\<close>, \<open>s\<close> going \<open>1\<close>,
  \<open>3\<close>, \<open>5\<close>) the memo's effect \<open>0\<close> runs three times, for \<open>s = 1\<close> when it is created and
  after the writes of \<open>3\<close> and \<open>5\<close>; the subscriber \<open>1\<close> of \<open>m\<close> runs once, when it is
  created; \<open>m\<close> holds \<open>1\<close> after every statement and nothing is ever scheduled.
\<close>

theorem memo_writes_only_on_change:
  "(exec n f st = Some (Returned r, st1) \<and> vars st1 ini = VBool True \<and> vars st1 cac = r
      \<longrightarrow> exec (n + 3) (memo_body f ini cac out) st = Some (Returned VUndef, st1))
   \<and> map (\<lambda>k. final (\<lambda>st. (runs_of (trace st), sig_value (signals st 1)))
                 (script (take k memo_script) rt0)) [2, 3, 4, 5, 6]
       = [Some ([0], VNum 1), Some ([0, 1], VNum 1), Some ([0, 1], VNum 1),
          Some ([0, 1, 0], VNum 1), Some ([0, 1, 0, 0], VNum 1)]
   \<and> final (\<lambda>st. scheduled_of (trace st)) (script memo_script rt0) = Some []
   \<and> (others_outside out me st \<and> never_sets out p \<and> exec n p st = Some (res, st')
      \<longrightarrow> others_outside out me st'
          \<and> runs_count me st \<le> runs_count me st'
          \<and> (runs_count me st' = runs_count me st
               \<longrightarrow> sig_value (signals st' out) = sig_value (signals st out)))
   \<and> (others_outside out me st \<and> s \<noteq> out \<and> setter n s nxt st = Some (res, st')
      \<longrightarrow> others_outside out me st'
          \<and> runs_count me st \<le> runs_count me st'
          \<and> (runs_count me st' = runs_count me st
               \<longrightarrow> sig_value (signals st' out) = sig_value (signals st out)))
   \<and> (others_outside (nextSid st) (nextEid st) st \<and> knotMemo n f st = Some (out, res, st')
      \<longrightarrow> out = nextSid st \<and> others_outside out (nextEid st) st')"
proof -
  have c1: "exec n f st = Some (Returned r, st1) \<and> vars st1 ini = VBool True \<and> vars st1 cac = r
      \<longrightarrow> exec (n + 3) (memo_body f ini cac out) st = Some (Returned VUndef, st1)"
  proof
    assume a: "exec n f st = Some (Returned r, st1) \<and> vars st1 ini = VBool True \<and> vars st1 cac = r"
    then have a1: "exec n f st = Some (Returned r, st1)" by simp
    show "exec (n + 3) (memo_body f ini cac out) st = Some (Returned VUndef, st1)"
      unfolding memo_body_def
      by (rule exec_bind[OF a1]) (simp add: a eval_nat_numeral)
  qed
  have c2: "map (\<lambda>k. final (\<lambda>st. (runs_of (trace st), sig_value (signals st 1)))
                 (script (take k memo_script) rt0)) [2, 3, 4, 5, 6]
       = [Some ([0], VNum 1), Some ([0, 1], VNum 1), Some ([0, 1], VNum 1),
          Some ([0, 1, 0], VNum 1), Some ([0, 1, 0, 0], VNum 1)]"
    by code_simp
  have c3: "final (\<lambda>st. scheduled_of (trace st)) (script memo_script rt0) = Some []"
    by code_simp
  have c4: "others_outside out me st \<and> never_sets out p \<and> exec n p st = Some (res, st')
      \<longrightarrow> others_outside out me st'
          \<and> runs_count me st \<le> runs_count me st'
          \<and> (runs_count me st' = runs_count me st
               \<longrightarrow> sig_value (signals st' out) = sig_value (signals st out))"
    using memo_only_all(1)[rule_format, of n p st res st' out me]
    by (simp add: kept_def)
  have c5: "others_outside out me st \<and> s \<noteq> out \<and> setter n s nxt st = Some (res, st')
      \<longrightarrow> others_outside out me st'
          \<and> runs_count me st \<le> runs_count me st'
          \<and> (runs_count me st' = runs_count me st
               \<longrightarrow> sig_value (signals st' out) = sig_value (signals st out))"
    using memo_only_all(2)[rule_format, of n s "candidate nxt (sig_value (signals st s))" st res st' out me]
    by (simp add: kept_def setter_def)
  have c6: "others_outside (nextSid st) (nextEid st) st \<and> knotMemo n f st = Some (out, res, st')
      \<longrightarrow> out = nextSid st \<and> others_outside out (nextEid st) st'"
    using knotMemo_outside[of n f st out res st'] by blast
  from c1 c2 c3 c4 c5 c6 show ?thesis
    by (intro conjI) assumption+
qed

theorem memo_writes_only_on_change_witness:
  "exec 2 memo_fn st_memo = Some (Returned (VNum 1), st_memo)
   \<and> vars st_memo 0 = VBool True \<and> vars st_memo 1 = VNum 1
   \<and> exec (2 + 3) (memo_body memo_fn 0 1 1) st_memo = Some (Returned VUndef, st_memo)
   \<and> sig_value (signals st_memo 1) = VNum 1
   \<and> others_outside 1 0 st_returned \<and> never_sets 1 reads_memo
   \<and> (\<exists>res st'. exec 10 reads_memo st_returned = Some (res, st')
         \<and> runs_count 0 st' = runs_count 0 st_returned
         \<and> sig_value (signals st' 1) = sig_value (signals st_returned 1)
         \<and> others_outside 1 0 st')
   \<and> (\<exists>res st'. setter 10 2 (Literal (VNum 7)) st_returned = Some (res, st')
         \<and> runs_count 0 st' = runs_count 0 st_returned
         \<and> sig_value (signals st' 1) = sig_value (signals st_returned 1))
   \<and> final (\<lambda>st. (runs_count 0 st, sig_value (signals st 1)))
         (setter 20 0 (Literal (VNum 4)) st_returned) = Some (1, VNum 0)
   \<and> others_outside (nextSid st_one) (nextEid st_one) st_one
   \<and> (\<exists>res st'. knotMemo 20 memo_fn st_one = Some (1, res, st') \<and> others_outside 1 0 st')"
proof -
  have "snd (read 0 st_memo) = st_memo"
    by (simp add: read_def st_memo_def rt0_def upd_signal_def set_add_def) (simp add: fun_eq_iff)
  then have h1: "exec 2 memo_fn st_memo = Some (Returned (VNum 1), st_memo)"
    by (simp add: memo_fn_def eval_nat_numeral mod2_def) (simp add: st_memo_def)
  have h2: "vars st_memo 0 = VBool True" and h3: "vars st_memo 1 = VNum 1"
    and h4: "sig_value (signals st_memo 1) = VNum 1"
    by (simp_all add: st_memo_def)
  from h1 h2 h3
    memo_writes_only_on_change [where n = 2 and f = memo_fn and st = st_memo
      and r = "VNum 1" and ?st1.0 = st_memo and ini = 0 and cac = 1 and out = 1]
  have c1: "exec (2 + 3) (memo_body memo_fn 0 1 1) st_memo = Some (Returned VUndef, st_memo)"
    by blast
  have h5: "others_outside 1 0 st_returned"
    by (simp add: others_outside_def outsider_def st_returned_def st_memo_def rt0_def init_effect_def)
  have h6: "never_sets 1 reads_memo"
    by (simp add: reads_memo_def)
  have "map_option (\<lambda>x. runs_count 0 (snd x)) (exec 10 reads_memo st_returned) = Some 0"
    by code_simp
  then obtain r7 s7 where h7: "exec 10 reads_memo st_returned = Some (r7, s7)"
    and g7: "runs_count 0 s7 = 0" by auto
  have z: "runs_count 0 st_returned = 0"
    by (simp add: runs_count_def st_returned_def st_memo_def rt0_def)
  from h5 h6 h7 g7 z
    memo_writes_only_on_change [where n = 10 and st = st_returned and out = 1 and me = 0
      and p = reads_memo and res = r7 and st' = s7]
  have c7: "sig_value (signals s7 1) = sig_value (signals st_returned 1)"
    and d7: "others_outside 1 0 s7" by simp_all
  have "map_option (\<lambda>x. runs_count 0 (snd x)) (setter 10 2 (Literal (VNum 7)) st_returned) = Some 0"
    by code_simp
  then obtain r8 s8 where h8: "setter 10 2 (Literal (VNum 7)) st_returned = Some (r8, s8)"
    and g8: "runs_count 0 s8 = 0" by auto
  from h5 h8 g8 z
    memo_writes_only_on_change [where n = 10 and st = st_returned and out = 1 and me = 0
      and s = 2 and nxt = "Literal (VNum 7)" and res = r8 and st' = s8]
  have c8: "sig_value (signals s8 1) = sig_value (signals st_returned 1)" by simp
  have c9: "final (\<lambda>st. (runs_count 0 st, sig_value (signals st 1)))
         (setter 20 0 (Literal (VNum 4)) st_returned) = Some (1, VNum 0)"
    by code_simp
  have n1: "nextSid st_one = 1" and n0: "nextEid st_one = 0"
    by (simp_all add: st_one_def createMoan_def rt0_def)
  have h10: "others_outside (nextSid st_one) (nextEid st_one) st_one"
    by (simp add: others_outside_def outsider_def st_one_def createMoan_def rt0_def init_effect_def)
  have "map_option fst (knotMemo 20 memo_fn st_one) = Some 1"
    by code_simp
  then obtain r11 s11 where h11: "knotMemo 20 memo_fn st_one = Some (1, r11, s11)"
    by auto
  from h10 h11
    memo_writes_only_on_change [where n = 20 and st = st_one and f = memo_fn and out = 1
      and res = r11 and st' = s11]
  have "others_outside 1 (nextEid st_one) s11" by blast
  with n0 have c11: "others_outside 1 0 s11" by simp
  from h1 h2 h3 h4 c1 h5 h6 h7 g7 z c7 d7 h8 g8 c8 c9 h10 h11 c11 show ?thesis
    by (simp del: exec.simps) 
qed

subsection \<open>Overlapping fetches\<close>

text \<open>
  C4. Take a resource fresh from \<open>loadShot\<close> and any sequence of \<open>refetch\<close> calls, \<open>dispose\<close>
  calls and settlements. A fetch that was started and is no longer the one in place was
  aborted when the next \<open>refetch\<close> replaced it, so when it settles, whether resolved or
  rejected, all the batches of its settlement return having written nothing: no signal
  changes, nothing is scheduled or run. In particular, with fetch \<open>0\<close> (A) started, then
  fetch \<open>1\<close> (B), the data is B's result whether A resolves after B or before it.
\<close>

theorem superseded_fetch_writes_nothing:
  "(started res0 = 0 \<and> res_run n es (res0, st0) = Some (res, st)
      \<and> t < started res \<and> controller res \<noteq> Some t
    \<longrightarrow> (\<exists>r st'. settle (Suc (Suc m)) res t out st = Some (r, st') \<and> untouched st st'))
   \<and> map_option res_view
        (res_run 30 [Refetch, Refetch, Settle 1 (Resolved (VStr ''B'')), Settle 0 (Resolved (VStr ''A''))]
           (loadShot VNull rt0)) = Some (VStr ''B'', VBool False, VNull)
   \<and> map_option res_view
        (res_run 30 [Refetch, Refetch, Settle 0 (Resolved (VStr ''A'')), Settle 1 (Resolved (VStr ''B''))]
           (loadShot VNull rt0)) = Some (VStr ''B'', VBool False, VNull)"
proof -
  have "\<exists>r st'. settle (Suc (Suc m)) res t out st = Some (r, st') \<and> untouched st st'"
    if a: "started res0 = 0" "res_run n es (res0, st0) = Some (res, st)"
      "t < started res" "controller res \<noteq> Some t"
  proof -
    have "superseded_aborted res0" using a(1) by (simp add: superseded_aborted_def)
    from res_run_superseded[OF a(2) this] a(3,4) have "t \<in> set (aborted res)"
      by (simp add: superseded_aborted_def)
    then show ?thesis by (rule settle_aborted)
  qed
  moreover have "map_option res_view
        (res_run 30 [Refetch, Refetch, Settle 1 (Resolved (VStr ''B'')), Settle 0 (Resolved (VStr ''A''))]
           (loadShot VNull rt0)) = Some (VStr ''B'', VBool False, VNull)"
    by code_simp
  moreover have "map_option res_view
        (res_run 30 [Refetch, Refetch, Settle 0 (Resolved (VStr ''A'')), Settle 1 (Resolved (VStr ''B''))]
           (loadShot VNull rt0)) = Some (VStr ''B'', VBool False, VNull)"
    by code_simp
  ultimately show ?thesis by blast
qed

theorem superseded_fetch_writes_nothing_witness:
  "\<exists>res st. started (fst (loadShot VNull rt0)) = 0
     \<and> res_run 30 [Refetch, Refetch] (fst (loadShot VNull rt0), snd (loadShot VNull rt0)) = Some (res, st)
     \<and> 0 < started res \<and> controller res \<noteq> Some 0
     \<and> (\<exists>r st'. settle (Suc (Suc 0)) res 0 (Resolved (VStr ''A'')) st = Some (r, st')
            \<and> untouched st st')"
proof -
  have h1: "started (fst (loadShot VNull rt0)) = 0"
    by code_simp
  have "map_option (\<lambda>x. (started (fst x), controller (fst x)))
          (res_run 30 [Refetch, Refetch] (fst (loadShot VNull rt0), snd (loadShot VNull rt0)))
        = Some (2, Some 1)"
    by code_simp
  then obtain res st
    where h2: "res_run 30 [Refetch, Refetch] (fst (loadShot VNull rt0), snd (loadShot VNull rt0))
                = Some (res, st)"
      and h3: "0 < started res" and h4: "controller res \<noteq> Some 0"
    by auto
  from h1 h2 h3 h4
    superseded_fetch_writes_nothing [where ?res0.0 = "fst (loadShot VNull rt0)" and n = 30
      and es = "[Refetch, Refetch]" and ?st0.0 = "snd (loadShot VNull rt0)" and res = res
      and st = st and t = 0 and m = 0 and out = "Resolved (VStr ''A'')"]
  show ?thesis by blast
qed

subsection \<open>Disposal of a resource\<close>

text \<open>
  C10. When the controller of a fetch has been aborted, the settlement of the fetch returns
  with no signal written, the \<open>finally\<close> block included (first part). Take a resource
  fresh from \<open>loadShot\<close> after any steps, then \<open>dispose\<close>, then any settlements of started
  fetches and further \<open>dispose\<close> calls, but no \<open>refetch\<close>: all these steps return, and
  \<open>data()\<close>, \<open>loading()\<close> and \<open>error()\<close> are what they were when \<open>dispose\<close> was called (second
  part). With a fetch in flight that is \<open>loading() = true\<close>: after \<open>refetch\<close>, \<open>dispose\<close> and
  the settlement of the fetch, resolved or rejected, \<open>loading()\<close> is still \<open>true\<close> and \<open>data()\<close>
  and \<open>error()\<close> are the initial \<open>null\<close>.
\<close>

theorem aborted_fetch_writes_nothing:
  "(t \<in> set (aborted res)
    \<longrightarrow> (\<exists>r st'. settle (Suc (Suc m)) res t out st = Some (r, st') \<and> untouched st st'))
   \<and> (started res0 = 0 \<and> res_run n es0 (res0, st0) = Some (res, st) \<and> no_refetch res es
      \<longrightarrow> (\<exists>res' st'. res_run (Suc (Suc m)) (Dispose # es) (res, st) = Some (res', st')
              \<and> untouched st st' \<and> res_view (res', st') = res_view (res, st)))
   \<and> map (\<lambda>out. map_option res_view
                (res_run 30 [Refetch, Dispose, Settle 0 out] (loadShot VNull rt0)))
       [Resolved (VStr ''A''), Rejected (VStr ''A'')]
       = [Some (VNull, VBool True, VNull), Some (VNull, VBool True, VNull)]"
proof -
  have 1: "\<exists>r st'. settle (Suc (Suc m)) res t out st = Some (r, st') \<and> untouched st st'"
    if "t \<in> set (aborted res)"
    using that by (rule settle_aborted)
  have 2: "\<exists>res' st'. res_run (Suc (Suc m)) (Dispose # es) (res, st) = Some (res', st')
              \<and> untouched st st' \<and> res_view (res', st') = res_view (res, st)"
    if a: "started res0 = 0" "res_run n es0 (res0, st0) = Some (res, st)" "no_refetch res es"
  proof -
    have "superseded_aborted res0" using a(1) by (simp add: superseded_aborted_def)
    from res_run_superseded[OF a(2) this]
    have "all_aborted (res_dispose res)"
      by (auto simp: superseded_aborted_def all_aborted_def)
    moreover have "no_refetch (res_dispose res) es" using a(3) by simp
    ultimately obtain res' st'
      where "res_run (Suc (Suc m)) es (res_dispose res, st) = Some (res', st')" "untouched st st'"
        "dataS res' = dataS res" "loadingS res' = loadingS res" "errorS res' = errorS res"
      using res_run_all_aborted[of "res_dispose res" es m st] by auto
    then show ?thesis
      by (auto simp: res_step_def res_view_def untouched_def)
  qed
  have 3: "map (\<lambda>out. map_option res_view
                (res_run 30 [Refetch, Dispose, Settle 0 out] (loadShot VNull rt0)))
       [Resolved (VStr ''A''), Rejected (VStr ''A'')]
       = [Some (VNull, VBool True, VNull), Some (VNull, VBool True, VNull)]"
    by code_simp
  from 1 2 3 show ?thesis by blast
qed

theorem aborted_fetch_writes_nothing_witness:
  "\<exists>res st. started (fst (loadShot VNull rt0)) = 0
     \<and> res_run 30 [Refetch, Dispose] (fst (loadShot VNull rt0), snd (loadShot VNull rt0)) = Some (res, st)
     \<and> 0 \<in> set (aborted res)
     \<and> no_refetch res [Settle 0 (Rejected (VStr ''A''))]
     \<and> (\<exists>r st'. settle (Suc (Suc 0)) res 0 (Rejected (VStr ''A'')) st = Some (r, st')
            \<and> untouched st st')
     \<and> (\<exists>res' st'. res_run (Suc (Suc 0)) [Dispose, Settle 0 (Rejected (VStr ''A''))] (res, st)
                      = Some (res', st')
            \<and> untouched st st' \<and> res_view (res', st') = res_view (res, st))"
proof -
  have h1: "started (fst (loadShot VNull rt0)) = 0"
    by code_simp
  have "map_option (\<lambda>x. (started (fst x), aborted (fst x)))
          (res_run 30 [Refetch, Dispose] (fst (loadShot VNull rt0), snd (loadShot VNull rt0)))
        = Some (1, [0])"
    by code_simp
  then obtain res st
    where h2: "res_run 30 [Refetch, Dispose] (fst (loadShot VNull rt0), snd (loadShot VNull rt0))
                = Some (res, st)"
      and h3: "0 \<in> set (aborted res)" and h4: "started res = 1"
    by auto
  have h5: "no_refetch res [Settle 0 (Rejected (VStr ''A''))]"
    using h4 by (simp add: no_refetch_def)
  from h1 h2 h3 h5
    aborted_fetch_writes_nothing [where t = 0 and res = res and m = 0 and st = st
      and out = "Rejected (VStr ''A'')" and ?res0.0 = "fst (loadShot VNull rt0)" and n = 30
      and ?es0.0 = "[Refetch, Dispose]" and ?st0.0 = "snd (loadShot VNull rt0)"
      and es = "[Settle 0 (Rejected (VStr ''A''))]"]
  show ?thesis by blast
qed

subsection \<open>One pass of hydration\<close>

text \<open>
  C1. One call of \<open>hydrateDOMElement\<close> on \<open><div><p></p><b></b></div>\<close> and
  \<open>{type: 'div', children: [{type: 'span'}]}\<close> replaces the \<open>p\<close> by a new \<open>span\<close> and then
  reads \<open>nextSibling\<close> of the \<open>p\<close>, which is no longer in the document: the cursor is \<open>null\<close>,
  the loop ends, and the \<open>b\<close> stays, so the live tree is not the virtual one. With the
  virtual children \<open>span\<close> and \<open>b\<close> the lost cursor makes the loop create a second \<open>b\<close>
  beside the live one. With the one virtual child \<open>p\<close> nothing is replaced, the cursor is
  read before the child is hydrated, and the surplus \<open>b\<close> is removed. On \<open><div></div>\<close> and a
  virtual child without \<open>type\<close> the call never returns, whatever the fuel:
  \<open>createDOMElementForHydration\<close> calls itself with the same argument.
\<close>

theorem replaced_child_ends_the_walk:
  "view 5 (snd two_children) (fst two_children) = HElem ''DIV'' [] [HElem ''P'' [] [], HElem ''B'' [] []]
   \<and> outcome_of (hydrateDOMElement 20 dev_config one_span (fst two_children) (snd two_children))
       (\<lambda>d. (skeleton (view 5 d 0), created d, warnings d))
     = Some (Some 0, [HElem ''DIV'' [] [HElem ''SPAN'' [] [], HElem ''B'' [] []]], 4,
             [''Node mismatch, replacing''])
   \<and> describes one_span = [HElem ''DIV'' [] [HElem ''SPAN'' [] []]]
   \<and> outcome_of (hydrateDOMElement 20 dev_config span_and_b (fst two_children) (snd two_children))
       (\<lambda>d. (skeleton (view 5 d 0), created d, warnings d))
     = Some (Some 0, [HElem ''DIV'' [] [HElem ''SPAN'' [] [], HElem ''B'' [] [], HElem ''B'' [] []]], 5,
             [''Node mismatch, replacing'', ''Missing DOM nodes''])
   \<and> describes span_and_b = [HElem ''DIV'' [] [HElem ''SPAN'' [] [], HElem ''B'' [] []]]
   \<and> outcome_of (hydrateDOMElement 20 dev_config only_p (fst two_children) (snd two_children))
       (\<lambda>d. (skeleton (view 5 d 0), created d, warnings d))
     = Some (Some 0, describes only_p, 3, [''Extra DOM nodes''])
   \<and> (\<forall>n. hydrateDOMElement n dev_config typeless_child (fst no_children) (snd no_children) = None)"
proof -
  have 1: "view 5 (snd two_children) (fst two_children) = HElem ''DIV'' [] [HElem ''P'' [] [], HElem ''B'' [] []]"
    by code_simp
  have 2: "outcome_of (hydrateDOMElement 20 dev_config one_span (fst two_children) (snd two_children))
       (\<lambda>d. (skeleton (view 5 d 0), created d, warnings d))
     = Some (Some 0, [HElem ''DIV'' [] [HElem ''SPAN'' [] [], HElem ''B'' [] []]], 4,
             [''Node mismatch, replacing''])"
    by code_simp
  have 3: "describes one_span = [HElem ''DIV'' [] [HElem ''SPAN'' [] []]]"
    by code_simp
  have 4: "outcome_of (hydrateDOMElement 20 dev_config span_and_b (fst two_children) (snd two_children))
       (\<lambda>d. (skeleton (view 5 d 0), created d, warnings d))
     = Some (Some 0, [HElem ''DIV'' [] [HElem ''SPAN'' [] [], HElem ''B'' [] [], HElem ''B'' [] []]], 5,
             [''Node mismatch, replacing'', ''Missing DOM nodes''])"
    by code_simp
  have 5: "describes span_and_b = [HElem ''DIV'' [] [HElem ''SPAN'' [] [], HElem ''B'' [] []]]"
    by code_simp
  have 6: "outcome_of (hydrateDOMElement 20 dev_config only_p (fst two_children) (snd two_children))
       (\<lambda>d. (skeleton (view 5 d 0), created d, warnings d))
     = Some (Some 0, describes only_p, 3, [''Extra DOM nodes''])"
    by code_simp
  have a: "fst no_children = 0" "nodeType (nodes (snd no_children) 0) = ElementNode"
    "toLowerCase (tagName (nodes (snd no_children) 0)) = toLowerCase ''div''"
    "firstChild (snd no_children) 0 = None"
    by code_simp+
  have 7: "hydrateDOMElement n dev_config typeless_child (fst no_children) (snd no_children) = None"
    for n
  proof (cases n)
    case 0
    then show ?thesis by simp
  next
    case (Suc m)
    show ?thesis
    proof (cases m)
      case 0
      with Suc a show ?thesis
        by (simp add: typeless_child_def dev_config_def skipWhitespace_def)
    next
      case (Suc k)
      with \<open>n = Suc m\<close> a show ?thesis
        by (simp add: typeless_child_def dev_config_def skipWhitespace_def
              create_typeless_never_returns)
    qed
  qed
  from 1 2 3 4 5 6 7 show ?thesis by blast
qed

subsection \<open>Keyed children\<close>




section \<open>Properties of mounting\<close>

text \<open>
  C8. Whatever is passed as \<open>container\<close>, a value that is no element and no selector
  included, the \<open>cowgirl\<close> that the package exports does not throw: it goes through all its
  steps, \<open>setupNavigation\<close> and \<open>initComponents\<close> with their changes to the document among
  them. The \<open>cowgirl\<close> of client.js throws at its guard, before the router, the effect and
  the listeners, for such a value, for a selector that matches nothing and for a node that
  is no \<open>HTMLElement\<close>.
\<close>

theorem exported_cowgirl_ignores_container:
  "cowgirl pg container
     = Inr ([InitHMR, ExposeInitComponents]
            @ (case pathSegments pg of
                 [] \<Rightarrow> [ClearPreferredLanguage]
               | s # ss \<Rightarrow> (if length s = 2 then [] else [ClearPreferredLanguage]))
            @ [SetLanguage, SetupNavigation, InitComponents])
   \<and> cowgirl (pg\<lparr>pathSegments := []\<rparr>) NotANode
       = Inr [InitHMR, ExposeInitComponents, ClearPreferredLanguage, SetLanguage,
              SetupNavigation, InitComponents]
   \<and> cowgirl_client pg NotANode = Inl container_error
   \<and> cowgirl_client (pg\<lparr>querySelector := (\<lambda>s. None)\<rparr>) (Selector sel) = Inl container_error
   \<and> cowgirl_client (pg\<lparr>isHTMLElement := (\<lambda>x. False)\<rparr>) (NodeRef x) = Inl container_error"
  by (simp add: cowgirl_def cowgirl_client_def containerEl_def)

end
